theory Spec2Isabelle
  imports Complex_Main "HOL-Library.AList" "HOL-Library.Sublist"
begin

section \<open>JavaScript values\<close>

text \<open>
  The engine (\<^verbatim>\<open>src/services/workflowExecutor.ts\<close>) reads node configurations and
  event payloads of TypeScript type \<^verbatim>\<open>any\<close>. They are modelled as JSON-like values.
  A number is the value of an IEEE double: not-a-number, an infinity, or a real (the
  engine never does arithmetic on them, it only compares and prints them). An object is
  the list of its own properties in insertion order; a later entry for a key overrides an
  earlier one, as in an object literal.
\<close>

datatype jsnum = NaN | NegInf | Fin real | PosInf

datatype jsval =
    JUndefined
  | JNull
  | JBool bool
  | JNum jsnum
  | JStr string
  | JArr "jsval list"
  | JObj "(string \<times> jsval) list"

text \<open>
  A read \<^verbatim>\<open>value[part]\<close> with a computed name also finds what a value inherits from
  its prototype: the \<^verbatim>\<open>constructor\<close>, methods such as \<^verbatim>\<open>toString\<close>. These are
  functions and prototype objects of the language runtime and no JSON-like values; each
  is named by a string and stands for one object of the runtime. A value that a path
  resolves to is a JSON-like value or one of them.
\<close>

datatype rtval = Plain jsval | Native string

text \<open>
  The conversion of an object to a primitive value is asked for a string (by
  \<^verbatim>\<open>String(v)\<close> and a template literal), for a number (by \<^verbatim>\<open>Number(v)\<close>) or for
  neither (by \<^verbatim>\<open>==\<close>).
\<close>

datatype hint = HintString | HintNumber | HintDefault

datatype js_error = TypeError | SyntaxError

type_synonym 'a res = "js_error + 'a"

text \<open>
  The built-ins of the language runtime that the engine calls and that are no code of
  this repository are parameters of the model: \<^verbatim>\<open>Number(s)\<close> on a string,
  \<^verbatim>\<open>String(n)\<close> on a number, \<^verbatim>\<open>new RegExp(p)\<close> (\<open>None\<close> when the constructor throws a
  SyntaxError, otherwise the \<^verbatim>\<open>test\<close> function of the compiled pattern),
  \<^verbatim>\<open>toLowerCase\<close>, \<^verbatim>\<open>trim\<close>, and \<^verbatim>\<open>String(error)\<close> on a caught error. So are the
  prototypes: the read of a property that a JSON-like value does not own, resolved along
  its prototype chain (\<^verbatim>\<open>undefined\<close> when no prototype has it, an error when a getter
  throws); the read of a property of a runtime object; and the conversion of a runtime
  object to a primitive value.
\<close>

record host =
  h_number_of_string :: "string \<Rightarrow> jsnum"
  h_string_of_number :: "jsnum \<Rightarrow> string"
  h_regexp :: "string \<Rightarrow> (string \<Rightarrow> bool) option"
  h_lower :: "string \<Rightarrow> string"
  h_trim :: "string \<Rightarrow> string"
  h_error_text :: "js_error \<Rightarrow> string"
  h_inherited :: "jsval \<Rightarrow> string \<Rightarrow> rtval res"
  h_native_get :: "string \<Rightarrow> string \<Rightarrow> rtval res"
  h_native_primitive :: "string \<Rightarrow> hint \<Rightarrow> jsval res"

text \<open>
  \<^verbatim>\<open>Date.now()\<close> and \<^verbatim>\<open>new Date().toLocaleTimeString()\<close> are read once for each trace
  entry; the clock gives both readings for the entry at a position of the trace.
\<close>

record clock =
  date_now :: "nat \<Rightarrow> string"
  time_string :: "nat \<Rightarrow> string"

subsection \<open>Errors\<close>

definition bind :: "'a res \<Rightarrow> ('a \<Rightarrow> 'b res) \<Rightarrow> 'b res" where
  \<comment> \<open>sequencing: a thrown error skips the rest\<close>
  "bind m f = (case m of Inl e \<Rightarrow> Inl e | Inr v \<Rightarrow> f v)"

fun map_res :: "('a \<Rightarrow> 'b res) \<Rightarrow> 'a list \<Rightarrow> 'b list res" where
  \<comment> \<open>\<^verbatim>\<open>xs.map(f)\<close> with a callback that may throw: the first error ends the call\<close>
  "map_res f [] = Inr []"
| "map_res f (x # xs) =
     (case f x of
        Inl e \<Rightarrow> Inl e
      | Inr y \<Rightarrow> (case map_res f xs of Inl e \<Rightarrow> Inl e | Inr ys \<Rightarrow> Inr (y # ys)))"

definition returns :: "'a res \<Rightarrow> bool" where
  \<comment> \<open>the computation ends with a value, not with a thrown error\<close>
  "returns m = (case m of Inl e \<Rightarrow> False | Inr v \<Rightarrow> True)"

subsection \<open>Coercions and operators\<close>

definition truthy :: "jsval \<Rightarrow> bool" where
  "truthy v =
     (case v of
        JUndefined \<Rightarrow> False
      | JNull \<Rightarrow> False
      | JBool b \<Rightarrow> b
      | JNum n \<Rightarrow> n \<noteq> NaN \<and> n \<noteq> Fin 0
      | JStr s \<Rightarrow> s \<noteq> []
      | JArr xs \<Rightarrow> True
      | JObj kvs \<Rightarrow> True)"

definition js_or :: "jsval \<Rightarrow> jsval \<Rightarrow> jsval" where
  \<comment> \<open>\<^verbatim>\<open>a || b\<close>\<close>
  "js_or a b = (if truthy a then a else b)"

definition rt_truthy :: "rtval \<Rightarrow> bool" where
  \<comment> \<open>every object of the runtime is truthy\<close>
  "rt_truthy v = (case v of Plain u \<Rightarrow> truthy u | Native n \<Rightarrow> True)"

definition rt_or :: "rtval \<Rightarrow> jsval \<Rightarrow> rtval" where
  \<comment> \<open>\<^verbatim>\<open>a || b\<close> on a resolved value\<close>
  "rt_or a b = (if rt_truthy a then a else Plain b)"

fun join_with :: "string \<Rightarrow> string list \<Rightarrow> string" where
  "join_with sep [] = []"
| "join_with sep [x] = x"
| "join_with sep (x # y # ys) = x @ sep @ join_with sep (y # ys)"

definition obj_lookup :: "(string \<times> jsval) list \<Rightarrow> string \<Rightarrow> jsval option" where
  "obj_lookup kvs k = map_of (rev kvs) k"

text \<open>
  \<^verbatim>\<open>String(v)\<close>, also the conversion inside a template literal. An object is converted
  to a primitive by its methods \<^verbatim>\<open>toString\<close> and \<^verbatim>\<open>valueOf\<close>, tried in this order for
  a string and in the other order for a number; a property that is no function is passed
  over, and so is an answer that is no primitive; when neither method gives a primitive
  the conversion throws a TypeError. A plain object inherits a \<^verbatim>\<open>toString\<close> that answers
  \<^verbatim>\<open>[object Object]\<close> and a \<^verbatim>\<open>valueOf\<close> that answers the object itself, which is no
  primitive. So the own property \<^verbatim>\<open>toString\<close> decides: without it the primitive is
  \<^verbatim>\<open>[object Object]\<close> in either order; with it the inherited method is hidden by a
  JSON-like value, which is no function, and the conversion throws. An array is converted
  by joining the string forms of its elements (the empty string for \<^verbatim>\<open>null\<close> and
  \<^verbatim>\<open>undefined\<close>), which throws when the conversion of an element does.
\<close>

fun to_string :: "host \<Rightarrow> jsval \<Rightarrow> string res"
and element_strings :: "host \<Rightarrow> jsval list \<Rightarrow> string list res" where
  "to_string h JUndefined = Inr ''undefined''"
| "to_string h JNull = Inr ''null''"
| "to_string h (JBool b) = Inr (if b then ''true'' else ''false'')"
| "to_string h (JNum n) = Inr (h_string_of_number h n)"
| "to_string h (JStr s) = Inr s"
| "to_string h (JArr xs) =
     (case element_strings h xs of
        Inl e \<Rightarrow> Inl e
      | Inr ss \<Rightarrow> Inr (join_with '','' ss))"
| "to_string h (JObj kvs) =
     (if obj_lookup kvs ''toString'' = None then Inr ''[object Object]'' else Inl TypeError)"
| "element_strings h [] = Inr []"
| "element_strings h (v # vs) =
     (case (if v = JUndefined \<or> v = JNull then Inr [] else to_string h v) of
        Inl e \<Rightarrow> Inl e
      | Inr s \<Rightarrow>
          (case element_strings h vs of Inl e \<Rightarrow> Inl e | Inr ss \<Rightarrow> Inr (s # ss)))"

definition to_number :: "host \<Rightarrow> jsval \<Rightarrow> jsnum res" where
  \<comment> \<open>\<^verbatim>\<open>Number(v)\<close>; an array or object is first converted to a primitive, which is
      its string form or a TypeError\<close>
  "to_number h v =
     (case v of
        JUndefined \<Rightarrow> Inr NaN
      | JNull \<Rightarrow> Inr (Fin 0)
      | JBool b \<Rightarrow> Inr (Fin (if b then 1 else 0))
      | JNum n \<Rightarrow> Inr n
      | JStr s \<Rightarrow> Inr (h_number_of_string h s)
      | JArr xs \<Rightarrow> bind (to_string h v) (\<lambda>s. Inr (h_number_of_string h s))
      | JObj kvs \<Rightarrow> bind (to_string h v) (\<lambda>s. Inr (h_number_of_string h s)))"

definition rt_to_string :: "host \<Rightarrow> rtval \<Rightarrow> string res" where
  \<comment> \<open>\<^verbatim>\<open>String(v)\<close> on a resolved value\<close>
  "rt_to_string h v =
     (case v of
        Plain u \<Rightarrow> to_string h u
      | Native n \<Rightarrow> bind (h_native_primitive h n HintString) (to_string h))"

definition rt_to_number :: "host \<Rightarrow> rtval \<Rightarrow> jsnum res" where
  \<comment> \<open>\<^verbatim>\<open>Number(v)\<close> on a resolved value\<close>
  "rt_to_number h v =
     (case v of
        Plain u \<Rightarrow> to_number h u
      | Native n \<Rightarrow> bind (h_native_primitive h n HintNumber) (to_number h))"

definition isNaN :: "jsnum \<Rightarrow> bool" where
  "isNaN n = (n = NaN)"

fun num_less :: "jsnum \<Rightarrow> jsnum \<Rightarrow> bool" where
  "num_less NaN b = False"
| "num_less a NaN = False"
| "num_less a NegInf = False"
| "num_less NegInf b = True"
| "num_less PosInf b = False"
| "num_less (Fin x) PosInf = True"
| "num_less (Fin x) (Fin y) = (x < y)"

definition num_eq :: "jsnum \<Rightarrow> jsnum \<Rightarrow> bool" where
  "num_eq a b = (a \<noteq> NaN \<and> b \<noteq> NaN \<and> a = b)"

definition num_gt :: "jsnum \<Rightarrow> jsnum \<Rightarrow> bool" where
  "num_gt a b = num_less b a"

definition num_le :: "jsnum \<Rightarrow> jsnum \<Rightarrow> bool" where
  "num_le a b = (num_less a b \<or> num_eq a b)"

definition num_ge :: "jsnum \<Rightarrow> jsnum \<Rightarrow> bool" where
  "num_ge a b = (num_less b a \<or> num_eq a b)"

definition is_object :: "jsval \<Rightarrow> bool" where
  "is_object v = (case v of JArr xs \<Rightarrow> True | JObj kvs \<Rightarrow> True | _ \<Rightarrow> False)"

definition is_nullish :: "jsval \<Rightarrow> bool" where
  "is_nullish v = (v = JUndefined \<or> v = JNull)"

definition to_primitive :: "host \<Rightarrow> jsval \<Rightarrow> jsval res" where
  \<comment> \<open>the operand of \<^verbatim>\<open>==\<close>: a boolean becomes its number, an array or object its
      string form or a TypeError\<close>
  "to_primitive h v =
     (case v of
        JBool b \<Rightarrow> Inr (JNum (Fin (if b then 1 else 0)))
      | JArr xs \<Rightarrow> bind (to_string h v) (\<lambda>s. Inr (JStr s))
      | JObj kvs \<Rightarrow> bind (to_string h v) (\<lambda>s. Inr (JStr s))
      | _ \<Rightarrow> Inr v)"

definition plain_loose_eq :: "host \<Rightarrow> jsval \<Rightarrow> jsval \<Rightarrow> bool res" where
  \<comment> \<open>\<^verbatim>\<open>x == y\<close>. Two objects are equal only when they are the same reference; the
      resolved event value and a node's configured value are never the same object.\<close>
  "plain_loose_eq h x y =
     (if is_object x \<and> is_object y then Inr False
      else if is_nullish x \<or> is_nullish y then Inr (is_nullish x \<and> is_nullish y)
      else
        bind (to_primitive h x) (\<lambda>px.
        bind (to_primitive h y) (\<lambda>py.
          Inr (case (px, py) of
                 (JNum a, JNum b) \<Rightarrow> num_eq a b
               | (JNum a, JStr t) \<Rightarrow> num_eq a (h_number_of_string h t)
               | (JStr s, JNum b) \<Rightarrow> num_eq (h_number_of_string h s) b
               | (JStr s, JStr t) \<Rightarrow> s = t
               | _ \<Rightarrow> False))))"

definition loose_eq :: "host \<Rightarrow> rtval \<Rightarrow> jsval \<Rightarrow> bool res" where
  \<comment> \<open>\<^verbatim>\<open>actual == expected\<close>: a runtime object differs from every configured object
      and from \<^verbatim>\<open>null\<close> and \<^verbatim>\<open>undefined\<close>, and is compared with a primitive through
      its own primitive value\<close>
  "loose_eq h x y =
     (case x of
        Plain u \<Rightarrow> plain_loose_eq h u y
      | Native n \<Rightarrow>
          if is_object y \<or> is_nullish y then Inr False
          else bind (h_native_primitive h n HintDefault) (\<lambda>p. plain_loose_eq h p y))"

subsection \<open>Strings, arrays and objects\<close>

fun split_on :: "char \<Rightarrow> string \<Rightarrow> string list" where
  \<comment> \<open>\<^verbatim>\<open>s.split(c)\<close>: always at least one piece\<close>
  "split_on c [] = [[]]"
| "split_on c (x # xs) =
     (if x = c then [] # split_on c xs
      else (case split_on c xs of [] \<Rightarrow> [[x]] | p # ps \<Rightarrow> (x # p) # ps))"

definition digit_char :: "nat \<Rightarrow> char" where
  "digit_char d = char_of (48 + d)"

function show_nat :: "nat \<Rightarrow> string" where
  "show_nat n =
     (if n < 10 then [digit_char n] else show_nat (n div 10) @ [digit_char (n mod 10)])"
  by pat_completeness auto
termination
  by (relation "measure (\<lambda>n. n)") auto

declare show_nat.simps [simp del]

definition indexed :: "'a list \<Rightarrow> (string \<times> 'a) list" where
  \<comment> \<open>the index properties \<^verbatim>\<open>"0"\<close>, \<^verbatim>\<open>"1"\<close>, ... of an array or string\<close>
  "indexed xs = zip (map show_nat [0..<length xs]) xs"

definition own_prop :: "jsval \<Rightarrow> string \<Rightarrow> jsval option" where
  \<comment> \<open>the own properties of a value: the entries of an object, the \<^verbatim>\<open>length\<close> and
      the indices of a string or array\<close>
  "own_prop v k =
     (case v of
        JStr s \<Rightarrow>
          if k = ''length'' then Some (JNum (Fin (real (length s))))
          else (case map_of (indexed s) k of None \<Rightarrow> None | Some c \<Rightarrow> Some (JStr [c]))
      | JArr xs \<Rightarrow>
          if k = ''length'' then Some (JNum (Fin (real (length xs))))
          else map_of (indexed xs) k
      | JObj kvs \<Rightarrow> obj_lookup kvs k
      | _ \<Rightarrow> None)"

text \<open>
  The engine reads these properties by a fixed name: \<^verbatim>\<open>eventType\<close>, \<^verbatim>\<open>name\<close>,
  \<^verbatim>\<open>priority\<close>, \<^verbatim>\<open>mode\<close>, \<^verbatim>\<open>field\<close>, \<^verbatim>\<open>operator\<close>, \<^verbatim>\<open>value\<close>, \<^verbatim>\<open>logic\<close>,
  \<^verbatim>\<open>conditions\<close>, \<^verbatim>\<open>actions\<close>, \<^verbatim>\<open>type\<close>, \<^verbatim>\<open>label\<close>, \<^verbatim>\<open>details\<close>, \<^verbatim>\<open>params\<close> and
  \<^verbatim>\<open>length\<close>. The prototypes of objects, arrays, strings, numbers and booleans define
  none of these names, so such a read finds an own property or \<^verbatim>\<open>undefined\<close>.
\<close>

definition get_prop :: "jsval \<Rightarrow> string \<Rightarrow> jsval res" where
  \<comment> \<open>\<^verbatim>\<open>v.k\<close> for one of the fixed names: a TypeError on \<^verbatim>\<open>null\<close> and \<^verbatim>\<open>undefined\<close>\<close>
  "get_prop v k =
     (if is_nullish v then Inl TypeError
      else Inr (case own_prop v k of None \<Rightarrow> JUndefined | Some x \<Rightarrow> x))"

definition get_member :: "host \<Rightarrow> rtval \<Rightarrow> string \<Rightarrow> rtval res" where
  \<comment> \<open>\<^verbatim>\<open>value[part]\<close> with a computed name: an own property first, then the prototype
      chain\<close>
  "get_member h v k =
     (case v of
        Native n \<Rightarrow> h_native_get h n k
      | Plain u \<Rightarrow>
          if is_nullish u then Inl TypeError
          else (case own_prop u k of
                  Some x \<Rightarrow> Inr (Plain x)
                | None \<Rightarrow> h_inherited h u k))"

definition spread :: "jsval \<Rightarrow> (string \<times> jsval) list" where
  \<comment> \<open>the own enumerable properties copied by \<^verbatim>\<open>{...v}\<close>\<close>
  "spread v =
     (case v of
        JStr s \<Rightarrow> indexed (map (\<lambda>c. JStr [c]) s)
      | JArr xs \<Rightarrow> indexed xs
      | JObj kvs \<Rightarrow> kvs
      | _ \<Rightarrow> [])"

definition obj_assign ::
  "(string \<times> jsval) list \<Rightarrow> (string \<times> jsval) list \<Rightarrow> (string \<times> jsval) list" where
  \<comment> \<open>defines the properties of the second list, in order, on the first\<close>
  "obj_assign base src = fold (\<lambda>(k, v) acc. AList.update k v acc) src base"

section \<open>Data model\<close>

text \<open>
  The declarations of \<^verbatim>\<open>src/types.ts\<close> that the engine uses. A test event is parsed
  from YAML text (\<^verbatim>\<open>src/components/TestEditor.tsx\<close>), and the templates of the editor
  leave the key \<^verbatim>\<open>globals\<close> out: the keys \<^verbatim>\<open>data\<close> and \<^verbatim>\<open>globals\<close> of an event are
  present or absent.
\<close>

datatype NodeType = TRIGGER | CONDITION | ACTION

record WorkflowNode =
  nd_id :: string
  nd_type :: NodeType
  nd_name :: string
  nd_subtitle :: string
  nd_position :: "jsnum \<times> jsnum"
  nd_data :: jsval
  nd_enabled :: bool

record Connection =
  cn_id :: string
  sourceId :: string
  targetId :: string

record TestEvent =
  ev_type :: string
  ev_data :: "jsval option"
  ev_globals :: "jsval option"

datatype LogLevel =
  INIT | TRIGGER_LEVEL | CONDITION_LEVEL | ACTION_LEVEL | SUCCESS | WAIT | ERROR | AI | TEST

record LogEntry =
  le_id :: string
  le_timestamp :: string
  le_type :: string
  le_level :: LogLevel
  le_message :: string
  le_details :: jsval

record ExecutionResult =
  r_success :: bool
  r_logs :: "LogEntry list"
  r_executedNodes :: "string list"
  r_failedNode :: "string option"
  r_error :: "string option"

record ExecutionContext =
  cx_event :: TestEvent
  cx_data :: jsval
  cx_globals :: jsval
  cx_variables :: jsval

text \<open>
  The mutable fields of a \<^verbatim>\<open>WorkflowExecutor\<close>: the trace, the executed set (a
  \<^verbatim>\<open>Set\<close>, kept in insertion order) and the table of condition outcomes (a \<^verbatim>\<open>Map\<close>).
\<close>

record executor =
  logs :: "LogEntry list"
  executedNodes :: "string list"
  nodeConditions :: "string \<rightharpoonup> bool"

definition NodeType_text :: "NodeType \<Rightarrow> string" where
  "NodeType_text t =
     (case t of TRIGGER \<Rightarrow> ''TRIGGER'' | CONDITION \<Rightarrow> ''CONDITION'' | ACTION \<Rightarrow> ''ACTION'')"

definition set_add :: "string list \<Rightarrow> string \<Rightarrow> string list" where
  \<comment> \<open>\<^verbatim>\<open>Set.prototype.add\<close>\<close>
  "set_add xs x = (if x \<in> set xs then xs else xs @ [x])"

definition addLog :: "executor \<Rightarrow> LogEntry \<Rightarrow> executor" where
  "addLog s entry = s\<lparr>logs := logs s @ [entry]\<rparr>"

definition engine_log ::
  "clock \<Rightarrow> executor \<Rightarrow> string \<Rightarrow> LogLevel \<Rightarrow> string \<Rightarrow> jsval \<Rightarrow> LogEntry" where
  \<comment> \<open>the object literal passed to \<^verbatim>\<open>addLog\<close>: the id is
      \<^verbatim>\<open>exec-${Date.now()}-\<close> followed by the given tag\<close>
  "engine_log clk s tag lvl msg details =
     \<lparr>le_id = ''exec-'' @ date_now clk (length (logs s)) @ ''-'' @ tag,
      le_timestamp = time_string clk (length (logs s)),
      le_type = ''ENGINE'',
      le_level = lvl,
      le_message = msg,
      le_details = details\<rparr>"

definition field_value :: "jsval option \<Rightarrow> jsval" where
  \<comment> \<open>the read of a key of the event that may be absent\<close>
  "field_value f = (case f of None \<Rightarrow> JUndefined | Some v \<Rightarrow> v)"

section \<open>Comparator and field resolver\<close>

definition regexp_new :: "host \<Rightarrow> string \<Rightarrow> (string \<Rightarrow> bool) res" where
  \<comment> \<open>\<^verbatim>\<open>new RegExp(p)\<close>\<close>
  "regexp_new h p = (case h_regexp h p of None \<Rightarrow> Inl SyntaxError | Some t \<Rightarrow> Inr t)"

definition destructure :: "jsnum list \<Rightarrow> nat \<Rightarrow> jsnum" where
  \<comment> \<open>an element of the array pattern \<^verbatim>\<open>[min, max]\<close>: \<^verbatim>\<open>undefined\<close> past the end,
      which \<^verbatim>\<open>isNaN\<close> and the comparisons read as not-a-number\<close>
  "destructure xs i = (if i < length xs then xs ! i else NaN)"

text \<open>
  The four conversions at the head of \<^verbatim>\<open>compareValues\<close> run for every operator,
  before the \<^verbatim>\<open>switch\<close> and outside the only \<^verbatim>\<open>try\<close> block of the function, which
  encloses the construction and the test of the regular expression.
\<close>

definition compareValues :: "host \<Rightarrow> rtval \<Rightarrow> jsval \<Rightarrow> jsval \<Rightarrow> bool res" where
  "compareValues h actual operator expected =
     bind (rt_to_number h actual) (\<lambda>actualNum.
     bind (to_number h expected) (\<lambda>expectedNum.
     bind (rt_to_string h (rt_or actual (JStr []))) (\<lambda>actualText.
     bind (to_string h (js_or expected (JStr []))) (\<lambda>expectedText.
       (let actualStr = h_lower h actualText;
            expectedStr = h_lower h expectedText
        in
        if operator = JStr ''EQ'' \<or> operator = JStr ''=='' then
          loose_eq h actual expected
        else if operator = JStr ''NEQ'' \<or> operator = JStr ''!='' then
          bind (loose_eq h actual expected) (\<lambda>same. Inr (\<not> same))
        else if operator = JStr ''GT'' \<or> operator = JStr ''>'' then
          Inr (\<not> isNaN actualNum \<and> \<not> isNaN expectedNum \<and> num_gt actualNum expectedNum)
        else if operator = JStr ''LT'' \<or> operator = JStr ''<'' then
          Inr (\<not> isNaN actualNum \<and> \<not> isNaN expectedNum \<and> num_less actualNum expectedNum)
        else if operator = JStr ''GTE'' \<or> operator = JStr ''>='' then
          Inr (\<not> isNaN actualNum \<and> \<not> isNaN expectedNum \<and> num_ge actualNum expectedNum)
        else if operator = JStr ''LTE'' \<or> operator = JStr ''<='' then
          Inr (\<not> isNaN actualNum \<and> \<not> isNaN expectedNum \<and> num_le actualNum expectedNum)
        else if operator = JStr ''CONTAINS'' then
          Inr (sublist expectedStr actualStr)
        else if operator = JStr ''MATCHES'' then
          (case regexp_new h expectedStr of
             Inl e \<Rightarrow> Inr False
           | Inr regex \<Rightarrow> Inr (regex actualStr))
        else if operator = JStr ''IN'' then
          bind (to_string h expected) (\<lambda>expectedList.
          bind (rt_to_string h actual) (\<lambda>actualItem.
            (let expectedArray = map (h_trim h) (split_on CHR '','' expectedList)
             in Inr (actualItem \<in> set expectedArray))))
        else if operator = JStr ''NOT_IN'' then
          bind (to_string h expected) (\<lambda>expectedList.
          bind (rt_to_string h actual) (\<lambda>actualItem.
            (let excludeArray = map (h_trim h) (split_on CHR '','' expectedList)
             in Inr (actualItem \<notin> set excludeArray))))
        else if operator = JStr ''RANGE'' then
          bind (to_string h expected) (\<lambda>expectedList.
            (let bounds = map (h_number_of_string h) (split_on CHR '','' expectedList);
                 min_v = destructure bounds 0;
                 max_v = destructure bounds 1
             in Inr (\<not> isNaN actualNum \<and> \<not> isNaN min_v \<and> \<not> isNaN max_v \<and>
                     num_ge actualNum min_v \<and> num_le actualNum max_v)))
        else Inr False)))))"

definition event_props :: "TestEvent \<Rightarrow> (string \<times> jsval) list" where
  \<comment> \<open>the own properties of the event object: the keys that are present\<close>
  "event_props e =
     (''type'', JStr (ev_type e))
       # (case ev_data e of None \<Rightarrow> [] | Some d \<Rightarrow> [(''data'', d)])
       @ (case ev_globals e of None \<Rightarrow> [] | Some g \<Rightarrow> [(''globals'', g)])"

definition merged_view :: "ExecutionContext \<Rightarrow> (string \<times> jsval) list" where
  \<comment> \<open>\<^verbatim>\<open>{...context.data, ...context.event, ...context.globals}\<close>\<close>
  "merged_view ctx =
     obj_assign (obj_assign (obj_assign [] (spread (cx_data ctx))) (event_props (cx_event ctx)))
       (spread (cx_globals ctx))"

fun walk :: "host \<Rightarrow> rtval \<Rightarrow> string list \<Rightarrow> rtval res" where
  \<comment> \<open>the loop over the parts of the path\<close>
  "walk h v [] = Inr v"
| "walk h v (part # parts) =
     (if v = Plain JNull \<or> v = Plain JUndefined then Inr (Plain JUndefined)
      else (case get_member h v part of Inl e \<Rightarrow> Inl e | Inr v' \<Rightarrow> walk h v' parts))"

definition getValueFromPath :: "host \<Rightarrow> jsval \<Rightarrow> ExecutionContext \<Rightarrow> rtval res" where
  \<comment> \<open>the path is declared a string; any other truthy value has no \<^verbatim>\<open>split\<close> method\<close>
  "getValueFromPath h path ctx =
     (if \<not> truthy path then Inr (Plain JUndefined)
      else (case path of
              JStr p \<Rightarrow> walk h (Plain (JObj (merged_view ctx))) (split_on CHR ''.'' p)
            | _ \<Rightarrow> Inl TypeError))"

section \<open>Condition evaluator\<close>

definition evaluateSimpleCondition :: "host \<Rightarrow> jsval \<Rightarrow> ExecutionContext \<Rightarrow> bool res" where
  "evaluateSimpleCondition h conditionData ctx =
     bind (get_prop conditionData ''field'') (\<lambda>field.
     bind (get_prop conditionData ''operator'') (\<lambda>op.
     bind (get_prop conditionData ''value'') (\<lambda>expectedValue.
     bind (getValueFromPath h (js_or field (JStr [])) ctx) (\<lambda>actualValue.
       compareValues h actualValue (js_or op (JStr ''EQ'')) expectedValue))))"

definition evaluateGroupCondition :: "host \<Rightarrow> jsval \<Rightarrow> ExecutionContext \<Rightarrow> bool res" where
  "evaluateGroupCondition h conditionData ctx =
     bind (get_prop conditionData ''logic'') (\<lambda>lg.
     bind (get_prop conditionData ''conditions'') (\<lambda>cs.
       (let logic = js_or lg (JStr ''AND'');
            conditions = js_or cs (JArr [])
        in
        bind (get_prop conditions ''length'') (\<lambda>len.
          if len = JNum (Fin 0) then Inr True
          else
            (case conditions of
               JArr conds \<Rightarrow>
                 bind (map_res (\<lambda>cond. evaluateSimpleCondition h cond ctx) conds) (\<lambda>results.
                   if logic = JStr ''AND'' then Inr (list_all (\<lambda>r. r = True) results)
                   else if logic = JStr ''OR'' then Inr (list_ex (\<lambda>r. r = True) results)
                   else Inr False)
             | _ \<Rightarrow> Inl TypeError)))))"

section \<open>Trigger matcher\<close>

definition method_includes :: "jsval \<Rightarrow> string \<Rightarrow> bool res" where
  \<comment> \<open>\<^verbatim>\<open>v.includes(s)\<close>: strings and arrays have the method, a call on anything else
      is a TypeError\<close>
  "method_includes v s =
     (case v of
        JStr t \<Rightarrow> Inr (sublist s t)
      | JArr xs \<Rightarrow> Inr (JStr s \<in> set xs)
      | _ \<Rightarrow> Inl TypeError)"

definition replace_stars :: "jsval \<Rightarrow> string res" where
  \<comment> \<open>\<^verbatim>\<open>v.replace(/\*/g, ".*")\<close>: only strings have the method\<close>
  "replace_stars v =
     (case v of
        JStr t \<Rightarrow> Inr (concat (map (\<lambda>c. if c = CHR ''*'' then ''.*'' else [c]) t))
      | _ \<Rightarrow> Inl TypeError)"

definition shouldExecuteTrigger :: "host \<Rightarrow> WorkflowNode \<Rightarrow> TestEvent \<Rightarrow> bool res" where
  "shouldExecuteTrigger h triggerNode event =
     bind (get_prop (nd_data triggerNode) ''eventType'') (\<lambda>et.
       (let eventType = js_or et (JStr ''any'')
        in
        if eventType = JStr ''any'' then Inr True
        else
          bind (method_includes eventType ''*'') (\<lambda>has_star.
            if has_star then
              bind (replace_stars eventType) (\<lambda>pattern.
              bind (regexp_new h (''^'' @ pattern @ ''$'')) (\<lambda>regex.
                Inr (regex (ev_type event))))
            else Inr (JStr (ev_type event) = eventType))))"

section \<open>Node execution\<close>

definition sensitiveFields :: "string list" where
  "sensitiveFields = [''password'', ''token'', ''secret'', ''apiKey'']"

definition sanitizeData :: "jsval \<Rightarrow> jsval" where
  "sanitizeData d =
     JObj (fold
       (\<lambda>field sanitized.
          if (case obj_lookup sanitized field of None \<Rightarrow> False | Some v \<Rightarrow> v \<noteq> JUndefined)
          then AList.update field (JStr ''***REDACTED***'') sanitized
          else sanitized)
       sensitiveFields (obj_assign [] (spread d)))"

definition trigger_entry ::
  "host \<Rightarrow> clock \<Rightarrow> WorkflowNode \<Rightarrow> ExecutionContext \<Rightarrow> executor \<Rightarrow> LogEntry res" where
  \<comment> \<open>the trace entry of \<^verbatim>\<open>executeTrigger\<close>; reading a property of a \<^verbatim>\<open>null\<close> or
      \<^verbatim>\<open>undefined\<close> node configuration throws, and so may the conversion of the
      configured name inside the message\<close>
  "trigger_entry h clk node ctx s =
     bind (get_prop (nd_data node) ''eventType'') (\<lambda>et.
     bind (get_prop (nd_data node) ''name'') (\<lambda>nm.
     bind (get_prop (nd_data node) ''priority'') (\<lambda>pr.
     bind (to_string h nm) (\<lambda>name_text.
       Inr (engine_log clk s (nd_id node @ ''-trigger'') TRIGGER_LEVEL
              (''Trigger fired: '' @ name_text)
              (JObj [(''nodeId'', JStr (nd_id node)),
                     (''eventType'', js_or et (JStr ''unknown'')),
                     (''eventData'', sanitizeData (cx_data ctx)),
                     (''priority'', js_or pr (JNum (Fin 1)))]))))))"

definition executeTrigger ::
  "host \<Rightarrow> clock \<Rightarrow> WorkflowNode \<Rightarrow> ExecutionContext \<Rightarrow> executor \<Rightarrow> unit res \<times> executor" where
  "executeTrigger h clk node ctx s =
     (case trigger_entry h clk node ctx s of
        Inl e \<Rightarrow> (Inl e, s)
      | Inr entry \<Rightarrow>
          (Inr (), (addLog s entry)\<lparr>nodeConditions := (nodeConditions s)(nd_id node \<mapsto> True)\<rparr>))"

definition condition_passed :: "host \<Rightarrow> WorkflowNode \<Rightarrow> ExecutionContext \<Rightarrow> (jsval \<times> bool) res" where
  \<comment> \<open>the mode and the outcome computed by \<^verbatim>\<open>executeCondition\<close>\<close>
  "condition_passed h node ctx =
     bind (get_prop (nd_data node) ''mode'') (\<lambda>m.
       (let mode = js_or m (JStr ''SIMPLE'')
        in
        if mode = JStr ''SIMPLE'' then
          bind (evaluateSimpleCondition h (nd_data node) ctx) (\<lambda>passed. Inr (mode, passed))
        else if mode = JStr ''GROUP'' then
          bind (evaluateGroupCondition h (nd_data node) ctx) (\<lambda>passed. Inr (mode, passed))
        else Inr (mode, False)))"

definition executeCondition ::
  "host \<Rightarrow> clock \<Rightarrow> WorkflowNode \<Rightarrow> ExecutionContext \<Rightarrow> executor \<Rightarrow> unit res \<times> executor" where
  "executeCondition h clk node ctx s =
     (case condition_passed h node ctx of
        Inl e \<Rightarrow> (Inl e, s)
      | Inr (mode, passed) \<Rightarrow>
          (Inr (),
           (addLog s
              (engine_log clk s (nd_id node @ ''-condition'') CONDITION_LEVEL
                 (''Condition '' @ (if passed then ''PASSED'' else ''FAILED'') @ '': '' @ nd_name node)
                 (JObj [(''nodeId'', JStr (nd_id node)),
                        (''mode'', mode),
                        (''passed'', JBool passed),
                        (''condition'', sanitizeData (nd_data node))])))
           \<lparr>nodeConditions := (nodeConditions s)(nd_id node \<mapsto> passed)\<rparr>))"

definition single_action_entry ::
  "host \<Rightarrow> clock \<Rightarrow> jsval \<Rightarrow> nat \<Rightarrow> executor \<Rightarrow> LogEntry res" where
  "single_action_entry h clk action index s =
     bind (get_prop action ''type'') (\<lambda>ty.
     bind (get_prop action ''label'') (\<lambda>lbl.
     bind (get_prop action ''details'') (\<lambda>det.
     bind (get_prop action ''params'') (\<lambda>params.
     bind (to_string h ty) (\<lambda>type_text.
       Inr (engine_log clk s (''action-'' @ show_nat index) ACTION_LEVEL
              (''Executing action ['' @ show_nat (index + 1) @ '']: '' @ type_text)
              (JObj [(''actionType'', ty), (''label'', lbl),
                     (''details'', det), (''params'', params)])))))))"

definition executeSingleAction ::
  "host \<Rightarrow> clock \<Rightarrow> jsval \<Rightarrow> nat \<Rightarrow> executor \<Rightarrow> unit res \<times> executor" where
  \<comment> \<open>the simulated effect is a delay only\<close>
  "executeSingleAction h clk action index s =
     (case single_action_entry h clk action index s of
        Inl e \<Rightarrow> (Inl e, s)
      | Inr entry \<Rightarrow> (Inr (), addLog s entry))"

fun executeActions ::
  "host \<Rightarrow> clock \<Rightarrow> jsval list \<Rightarrow> nat \<Rightarrow> executor \<Rightarrow> unit res \<times> executor" where
  \<comment> \<open>the loop of \<^verbatim>\<open>executeAction\<close> from index \<open>i\<close> on; the pacing delay of
      \<^verbatim>\<open>SEQUENCE\<close> mode changes no state\<close>
  "executeActions h clk [] i s = (Inr (), s)"
| "executeActions h clk (action # rest) i s =
     (case executeSingleAction h clk action i s of
        (Inl e, s') \<Rightarrow> (Inl e, s')
      | (Inr u, s') \<Rightarrow> executeActions h clk rest (Suc i) s')"

definition action_summary :: "jsval \<Rightarrow> jsval res" where
  \<comment> \<open>the callback \<^verbatim>\<open>(a) => ({ type: a.type, label: a.label || "Unnamed" })\<close>\<close>
  "action_summary a =
     bind (get_prop a ''type'') (\<lambda>ty.
     bind (get_prop a ''label'') (\<lambda>lbl.
       Inr (JObj [(''type'', ty), (''label'', js_or lbl (JStr ''Unnamed''))])))"

definition method_map :: "(jsval \<Rightarrow> jsval res) \<Rightarrow> jsval \<Rightarrow> jsval list res" where
  \<comment> \<open>\<^verbatim>\<open>v.map(f)\<close>: only arrays have the method\<close>
  "method_map f v = (case v of JArr xs \<Rightarrow> map_res f xs | _ \<Rightarrow> Inl TypeError)"

definition action_start ::
  "host \<Rightarrow> clock \<Rightarrow> WorkflowNode \<Rightarrow> executor \<Rightarrow> (LogEntry \<times> jsval list \<times> jsval) res" where
  \<comment> \<open>the first trace entry of \<^verbatim>\<open>executeAction\<close>, with the actions and their
      \<^verbatim>\<open>length\<close>\<close>
  "action_start h clk node s =
     bind (get_prop (nd_data node) ''actions'') (\<lambda>acts.
     bind (get_prop (nd_data node) ''mode'') (\<lambda>m.
       (let actions = js_or acts (JArr []);
            mode = js_or m (JStr ''SINGLE'')
        in
        bind (get_prop actions ''length'') (\<lambda>len.
        bind (to_string h len) (\<lambda>count_text.
        bind (to_string h mode) (\<lambda>mode_text.
        bind (method_map action_summary actions) (\<lambda>summaries.
          Inr (engine_log clk s (nd_id node @ ''-action-start'') ACTION_LEVEL
                 (''Executing '' @ count_text @ '' action(s) in '' @ mode_text @ '' mode'')
                 (JObj [(''nodeId'', JStr (nd_id node)),
                        (''mode'', mode),
                        (''actionCount'', len),
                        (''actions'', JArr summaries)]),
               (case actions of JArr xs \<Rightarrow> xs | _ \<Rightarrow> []),
               len))))))))"

definition executeAction ::
  "host \<Rightarrow> clock \<Rightarrow> WorkflowNode \<Rightarrow> ExecutionContext \<Rightarrow> executor \<Rightarrow> unit res \<times> executor" where
  "executeAction h clk node ctx s =
     (case action_start h clk node s of
        Inl e \<Rightarrow> (Inl e, s)
      | Inr (entry, actions, len) \<Rightarrow>
          (case executeActions h clk actions 0 (addLog s entry) of
             (Inl e, s') \<Rightarrow> (Inl e, s')
           | (Inr u, s') \<Rightarrow>
               (Inr (),
                (addLog s'
                   (engine_log clk s' (nd_id node @ ''-action-complete'') ACTION_LEVEL
                      (''Actions completed: '' @ nd_name node)
                      (JObj [(''nodeId'', JStr (nd_id node)), (''totalActions'', len)])))
                \<lparr>nodeConditions := (nodeConditions s')(nd_id node \<mapsto> True)\<rparr>)))"

definition node_step ::
  "host \<Rightarrow> clock \<Rightarrow> WorkflowNode \<Rightarrow> ExecutionContext \<Rightarrow> executor \<Rightarrow> unit res \<times> executor" where
  \<comment> \<open>the \<^verbatim>\<open>switch\<close> on the node's kind inside the \<^verbatim>\<open>try\<close> block\<close>
  "node_step h clk node ctx s =
     (case nd_type node of
        TRIGGER \<Rightarrow> executeTrigger h clk node ctx s
      | CONDITION \<Rightarrow> executeCondition h clk node ctx s
      | ACTION \<Rightarrow> executeAction h clk node ctx s)"

definition start_entry :: "clock \<Rightarrow> executor \<Rightarrow> WorkflowNode \<Rightarrow> LogEntry" where
  \<comment> \<open>the trace entry at the head of \<^verbatim>\<open>executeNode\<close>\<close>
  "start_entry clk s node =
     engine_log clk s (nd_id node @ ''-start'') INIT
       (''Executing '' @ NodeType_text (nd_type node) @ '' node: '' @ nd_name node)
       (JObj [(''nodeId'', JStr (nd_id node)),
              (''nodeType'', JStr (NodeType_text (nd_type node)))])"

definition error_entry ::
  "host \<Rightarrow> clock \<Rightarrow> executor \<Rightarrow> WorkflowNode \<Rightarrow> js_error \<Rightarrow> LogEntry" where
  \<comment> \<open>the trace entry of the \<^verbatim>\<open>catch\<close> block of \<^verbatim>\<open>executeNode\<close>\<close>
  "error_entry h clk s node e =
     engine_log clk s (nd_id node @ ''-error'') ERROR
       (''Error executing '' @ NodeType_text (nd_type node) @ '': '' @ nd_name node)
       (JObj [(''nodeId'', JStr (nd_id node)), (''error'', JStr (h_error_text h e))])"

definition executeNode ::
  "host \<Rightarrow> clock \<Rightarrow> WorkflowNode \<Rightarrow> ExecutionContext \<Rightarrow> executor \<Rightarrow> executor" where
  "executeNode h clk node ctx s =
     (case node_step h clk node ctx (addLog s (start_entry clk s node)) of
        (Inr u, s2) \<Rightarrow> s2\<lparr>executedNodes := set_add (executedNodes s2) (nd_id node)\<rparr>
      | (Inl e, s2) \<Rightarrow> addLog s2 (error_entry h clk s2 node e))"

section \<open>Propagation engine\<close>

definition nodePassedCondition :: "WorkflowNode list \<Rightarrow> executor \<Rightarrow> string \<Rightarrow> bool" where
  "nodePassedCondition nodes s nodeId =
     (case List.find (\<lambda>n. nd_id n = nodeId) nodes of
        None \<Rightarrow> False
      | Some node \<Rightarrow>
          if nd_type node = TRIGGER \<or> nd_type node = ACTION then True
          else nodeConditions s nodeId = Some True)"

definition maxIterations :: nat where
  "maxIterations = 100"

definition gates_clear ::
  "WorkflowNode list \<Rightarrow> Connection list \<Rightarrow> executor \<Rightarrow> WorkflowNode \<Rightarrow> bool" where
  \<comment> \<open>the four \<^verbatim>\<open>continue\<close> tests of the inner loop, negated: the node is attempted\<close>
  "gates_clear nodes connections s node =
     (let parentConnections = filter (\<lambda>c. targetId c = nd_id node) connections
      in
      nd_id node \<notin> set (executedNodes s) \<and>
      nd_type node \<noteq> TRIGGER \<and>
      parentConnections \<noteq> [] \<and>
      list_all (\<lambda>c. sourceId c \<in> set (executedNodes s)) parentConnections \<and>
      list_ex (\<lambda>c. nodePassedCondition nodes s (sourceId c)) parentConnections)"

fun propagate_pass ::
  "host \<Rightarrow> clock \<Rightarrow> WorkflowNode list \<Rightarrow> Connection list \<Rightarrow> ExecutionContext \<Rightarrow>
   WorkflowNode list \<Rightarrow> executor \<times> bool \<Rightarrow> executor \<times> bool" where
  \<comment> \<open>one run of \<^verbatim>\<open>for (const node of this.nodes)\<close> over the nodes still to visit,
      on the executor and the flag \<^verbatim>\<open>changed\<close>\<close>
  "propagate_pass h clk nodes connections ctx [] (s, changed) = (s, changed)"
| "propagate_pass h clk nodes connections ctx (node # rest) (s, changed) =
     (if gates_clear nodes connections s node
      then propagate_pass h clk nodes connections ctx rest (executeNode h clk node ctx s, True)
      else propagate_pass h clk nodes connections ctx rest (s, changed))"

function propagate_while ::
  "host \<Rightarrow> clock \<Rightarrow> WorkflowNode list \<Rightarrow> Connection list \<Rightarrow> ExecutionContext \<Rightarrow>
   bool \<Rightarrow> nat \<Rightarrow> executor \<Rightarrow> nat \<times> executor" where
  \<comment> \<open>\<^verbatim>\<open>while (changed && iterations < maxIterations)\<close>; returns the final counter\<close>
  "propagate_while h clk nodes connections ctx changed iterations s =
     (if changed \<and> iterations < maxIterations then
        (case propagate_pass h clk nodes connections ctx nodes (s, False) of
           (s', changed') \<Rightarrow>
             propagate_while h clk nodes connections ctx changed' (Suc iterations) s')
      else (iterations, s))"
  by pat_completeness auto
termination
  by (relation "measure (\<lambda>(h, clk, nodes, connections, ctx, changed, iterations, s).
        maxIterations - iterations)") auto

declare propagate_while.simps [simp del]

definition propagateExecution ::
  "host \<Rightarrow> clock \<Rightarrow> WorkflowNode list \<Rightarrow> Connection list \<Rightarrow> ExecutionContext \<Rightarrow>
   executor \<Rightarrow> executor" where
  "propagateExecution h clk nodes connections ctx s =
     (case propagate_while h clk nodes connections ctx True 0 s of
        (iterations, s') \<Rightarrow>
          if iterations \<ge> maxIterations then
            addLog s'
              (engine_log clk s' ''timeout'' ERROR
                 ''Workflow execution timeout - possible infinite loop''
                 (JObj [(''iterations'', JNum (Fin (real iterations)))]))
          else s')"

definition findTriggerNodes :: "WorkflowNode list \<Rightarrow> WorkflowNode list" where
  "findTriggerNodes nodes = filter (\<lambda>n. nd_type n = TRIGGER) nodes"

fun fire_triggers ::
  "host \<Rightarrow> clock \<Rightarrow> ExecutionContext \<Rightarrow> TestEvent \<Rightarrow> WorkflowNode list \<Rightarrow> executor \<Rightarrow>
   executor res" where
  \<comment> \<open>\<^verbatim>\<open>for (const triggerNode of triggerNodes)\<close>: an error thrown by
      \<^verbatim>\<open>shouldExecuteTrigger\<close> is caught nowhere in the engine\<close>
  "fire_triggers h clk ctx event [] s = Inr s"
| "fire_triggers h clk ctx event (triggerNode # rest) s =
     (case shouldExecuteTrigger h triggerNode event of
        Inl e \<Rightarrow> Inl e
      | Inr fire \<Rightarrow>
          if \<not> fire then fire_triggers h clk ctx event rest s
          else fire_triggers h clk ctx event rest (executeNode h clk triggerNode ctx s))"

definition new_executor :: executor where
  "new_executor = \<lparr>logs = [], executedNodes = [], nodeConditions = Map.empty\<rparr>"

definition make_context :: "TestEvent \<Rightarrow> ExecutionContext" where
  "make_context event =
     \<lparr>cx_event = event,
      cx_data = js_or (field_value (ev_data event)) (JObj []),
      cx_globals = js_or (field_value (ev_globals event)) (JObj []),
      cx_variables = JObj []\<rparr>"

definition execute ::
  "host \<Rightarrow> clock \<Rightarrow> WorkflowNode list \<Rightarrow> Connection list \<Rightarrow> TestEvent \<Rightarrow>
   ExecutionResult res" where
  \<comment> \<open>\<^verbatim>\<open>executeWorkflow\<close>: the constructor, which keeps the enabled nodes and every
      connection, then \<^verbatim>\<open>execute\<close>\<close>
  "execute h clk all_nodes connections event =
     (let nodes = filter nd_enabled all_nodes;
          s0 = new_executor;
          ctx = make_context event;
          triggerNodes = findTriggerNodes nodes
      in
      if length triggerNodes = 0 then
        Inr \<lparr>r_success = False,
             r_logs = logs (addLog s0
               (engine_log clk s0 ''no-trigger'' ERROR ''No enabled trigger nodes found''
                  (JObj [(''event'', JStr (ev_type event))]))),
             r_executedNodes = [],
             r_failedNode = None,
             r_error = Some ''No trigger nodes found''\<rparr>
      else
        (case fire_triggers h clk ctx event triggerNodes s0 of
           Inl e \<Rightarrow> Inl e
         | Inr s1 \<Rightarrow>
             (let s2 = propagateExecution h clk nodes connections ctx s1
              in Inr \<lparr>r_success = True,
                      r_logs = logs s2,
                      r_executedNodes = executedNodes s2,
                      r_failedNode = None,
                      r_error = None\<rparr>)))"

section \<open>Graph validator\<close>








section \<open>A host and a clock for the examples\<close>

text \<open>
  The examples below are evaluated on one concrete host. It describes the built-ins on a
  fragment only: lower-casing and trimming of ASCII strings; \<^verbatim>\<open>Number(s)\<close> of an
  unsigned decimal integer literal and of the blank string (every other string is read as
  not-a-number); \<^verbatim>\<open>String(n)\<close> of an integer below \<open>10\<^sup>2\<^sup>1\<close>; regular expressions
  built from literal characters, \<^verbatim>\<open>.\<close> and a postfix \<^verbatim>\<open>*\<close>, with an optional \<^verbatim>\<open>^\<close> in
  front and \<^verbatim>\<open>$\<close> at the end. A pattern with any other metacharacter is rejected; of
  these the examples use only \<^verbatim>\<open>^(.*$\<close>, which JavaScript rejects as well (an
  unterminated group). Of the prototypes it describes the \<^verbatim>\<open>constructor\<close> that a plain
  object inherits, which is the function \<^verbatim>\<open>Object\<close>, the \<^verbatim>\<open>name\<close> of that function
  and its source text as its primitive value; every other inherited property is answered
  \<^verbatim>\<open>undefined\<close>, which is the answer of JavaScript for the other property names of the
  examples. The general theorems hold for every host.
\<close>

definition ascii_lower :: "string \<Rightarrow> string" where
  "ascii_lower s =
     map (\<lambda>c. if 65 \<le> (of_char c :: nat) \<and> (of_char c :: nat) \<le> 90
              then char_of ((of_char c :: nat) + 32) else c) s"

definition is_space :: "char \<Rightarrow> bool" where
  "is_space c = ((of_char c :: nat) \<in> {9, 10, 11, 12, 13, 32})"

definition ascii_trim :: "string \<Rightarrow> string" where
  "ascii_trim s = rev (dropWhile is_space (rev (dropWhile is_space s)))"

definition is_digit :: "char \<Rightarrow> bool" where
  "is_digit c = (48 \<le> (of_char c :: nat) \<and> (of_char c :: nat) \<le> 57)"

definition digits_value :: "string \<Rightarrow> nat" where
  "digits_value s = foldl (\<lambda>acc c. 10 * acc + ((of_char c :: nat) - 48)) 0 s"

definition decimal_number :: "string \<Rightarrow> jsnum" where
  "decimal_number s =
     (let t = ascii_trim s
      in if t = [] then Fin 0
         else if list_all is_digit t then Fin (real (digits_value t))
         else NaN)"

definition print_number :: "jsnum \<Rightarrow> string" where
  "print_number n =
     (case n of
        NaN \<Rightarrow> ''NaN''
      | NegInf \<Rightarrow> ''-Infinity''
      | PosInf \<Rightarrow> ''Infinity''
      | Fin r \<Rightarrow> (if r < 0 then ''-'' @ show_nat (nat \<lfloor>- r\<rfloor>) else show_nat (nat \<lfloor>r\<rfloor>)))"

datatype rx_atom = Lit char | Dot | Anything

definition atom_ok :: "rx_atom \<Rightarrow> char \<Rightarrow> bool" where
  "atom_ok a c =
     (case a of
        Lit x \<Rightarrow> c = x
      | Dot \<Rightarrow> (of_char c :: nat) \<noteq> 10 \<and> (of_char c :: nat) \<noteq> 13
      | Anything \<Rightarrow> True)"

fun parse_items :: "string \<Rightarrow> (rx_atom \<times> bool) list option" where
  "parse_items [] = Some []"
| "parse_items (c # cs) =
     (if c \<in> set (''*+?()[]{}|^$'' @ [CHR 0x5C]) then None
      else
        (let a = (if c = CHR ''.'' then Dot else Lit c)
         in (case cs of
               [] \<Rightarrow> Some [(a, False)]
             | d # ds \<Rightarrow>
                 if d = CHR ''*''
                 then (case parse_items ds of None \<Rightarrow> None | Some r \<Rightarrow> Some ((a, True) # r))
                 else (case parse_items cs of None \<Rightarrow> None | Some r \<Rightarrow> Some ((a, False) # r)))))"

fun match_items :: "(rx_atom \<times> bool) list \<Rightarrow> string \<Rightarrow> bool" where
  "match_items [] s = (s = [])"
| "match_items ((a, False) # r) s =
     (case s of [] \<Rightarrow> False | c # cs \<Rightarrow> atom_ok a c \<and> match_items r cs)"
| "match_items ((a, True) # r) s =
     (match_items r s \<or>
      (case s of [] \<Rightarrow> False | c # cs \<Rightarrow> atom_ok a c \<and> match_items ((a, True) # r) cs))"

definition fragment_regexp :: "string \<Rightarrow> (string \<Rightarrow> bool) option" where
  "fragment_regexp p =
     (let front = (p \<noteq> [] \<and> hd p = CHR ''^'');
          p1 = (if front then tl p else p);
          back = (p1 \<noteq> [] \<and> last p1 = CHR ''$'');
          p2 = (if back then butlast p1 else p1)
      in (case parse_items p2 of
            None \<Rightarrow> None
          | Some items \<Rightarrow>
              Some (match_items
                ((if front then [] else [(Anything, True)]) @ items
                   @ (if back then [] else [(Anything, True)])))))"

definition sample_host :: host where
  "sample_host =
     \<lparr>h_number_of_string = decimal_number,
      h_string_of_number = print_number,
      h_regexp = fragment_regexp,
      h_lower = ascii_lower,
      h_trim = ascii_trim,
      h_error_text =
        (\<lambda>e. case e of TypeError \<Rightarrow> ''TypeError'' | SyntaxError \<Rightarrow> ''SyntaxError''),
      h_inherited =
        (\<lambda>v k. if k = ''constructor'' \<and> (case v of JObj kvs \<Rightarrow> True | _ \<Rightarrow> False)
               then Inr (Native ''Object'') else Inr (Plain JUndefined)),
      h_native_get =
        (\<lambda>n k. if n = ''Object'' \<and> k = ''name''
               then Inr (Plain (JStr ''Object'')) else Inr (Plain JUndefined)),
      h_native_primitive = (\<lambda>n t. Inr (JStr (''function '' @ n @ ''() { [native code] }'')))\<rparr>"

definition sample_clock :: clock where
  "sample_clock = \<lparr>date_now = (\<lambda>k. ''1000''), time_string = (\<lambda>k. ''12:00:00'')\<rparr>"

definition late_clock :: clock where
  "late_clock = \<lparr>date_now = (\<lambda>k. ''5000''), time_string = (\<lambda>k. ''18:30:00'')\<rparr>"

section \<open>Vocabulary of the properties\<close>

definition operator_tags :: "jsval set" where
  \<comment> \<open>the operator tags with a \<^verbatim>\<open>case\<close> in \<^verbatim>\<open>compareValues\<close>\<close>
  "operator_tags =
     JStr ` {''EQ'', ''=='', ''NEQ'', ''!='', ''GT'', ''>'', ''LT'', ''<'', ''GTE'', ''>='',
             ''LTE'', ''<='', ''CONTAINS'', ''MATCHES'', ''IN'', ''NOT_IN'', ''RANGE''}"

definition ordering_tags :: "jsval set" where
  "ordering_tags = JStr ` {''GT'', ''>'', ''LT'', ''<'', ''GTE'', ''>='', ''LTE'', ''<=''}"

text \<open>
  The substring test in the words of the specification: on the string forms of both
  operands, whatever they are.
\<close>

definition contains_spec :: "host \<Rightarrow> rtval \<Rightarrow> jsval \<Rightarrow> bool res" where
  "contains_spec h actual expected =
     bind (rt_to_string h actual) (\<lambda>a.
     bind (to_string h expected) (\<lambda>e.
       Inr (sublist (h_lower h e) (h_lower h a))))"

definition string_form :: "host \<Rightarrow> rtval \<Rightarrow> string res" where
  \<comment> \<open>the string form in which a falsy operand counts as the empty string\<close>
  "string_form h v = (if rt_truthy v then rt_to_string h v else Inr [])"

fun printable :: "jsval \<Rightarrow> bool"
and all_printable :: "jsval list \<Rightarrow> bool" where
  \<comment> \<open>no object with an own property named \<^verbatim>\<open>toString\<close>, and no array holding one\<close>
  "printable JUndefined = True"
| "printable JNull = True"
| "printable (JBool b) = True"
| "printable (JNum n) = True"
| "printable (JStr s) = True"
| "printable (JArr xs) = all_printable xs"
| "printable (JObj kvs) = (obj_lookup kvs ''toString'' = None)"
| "all_printable [] = True"
| "all_printable (v # vs) = (printable v \<and> all_printable vs)"

definition converts :: "host \<Rightarrow> rtval \<Rightarrow> jsval \<Rightarrow> bool" where
  \<comment> \<open>the four conversions at the head of \<^verbatim>\<open>compareValues\<close> end with a value\<close>
  "converts h actual expected =
     (returns (rt_to_number h actual) \<and> returns (to_number h expected) \<and>
      returns (rt_to_string h (rt_or actual (JStr []))) \<and>
      returns (to_string h (js_or expected (JStr []))))"

definition coerces :: "host \<Rightarrow> rtval \<Rightarrow> jsval \<Rightarrow> bool" where
  \<comment> \<open>every conversion that \<^verbatim>\<open>compareValues\<close> can ask of its operands ends with a
      value: the four at its head, \<^verbatim>\<open>String(actual)\<close>, \<^verbatim>\<open>String(expected)\<close> and the
      one inside \<^verbatim>\<open>==\<close>\<close>
  "coerces h actual expected =
     (converts h actual expected \<and>
      returns (rt_to_string h actual) \<and> returns (to_string h expected) \<and>
      returns (loose_eq h actual expected))"

text \<open>
  The merged view in the words of the specification: the globals first, then the event
  record, then the event data.
\<close>

definition overlay_lookup :: "ExecutionContext \<Rightarrow> string \<Rightarrow> jsval option" where
  "overlay_lookup ctx k =
     (case obj_lookup (spread (cx_globals ctx)) k of
        Some v \<Rightarrow> Some v
      | None \<Rightarrow>
          (case obj_lookup (event_props (cx_event ctx)) k of
             Some v \<Rightarrow> Some v
           | None \<Rightarrow> obj_lookup (spread (cx_data ctx)) k))"

definition enabled_triggers :: "WorkflowNode list \<Rightarrow> WorkflowNode list" where
  "enabled_triggers nodes = findTriggerNodes (filter nd_enabled nodes)"

definition entry_core :: "LogEntry \<Rightarrow> string \<times> LogLevel \<times> string \<times> jsval" where
  \<comment> \<open>a trace entry without its generated id and its timestamp\<close>
  "entry_core e = (le_type e, le_level e, le_message e, le_details e)"

definition result_core ::
  "ExecutionResult \<Rightarrow>
   bool \<times> string list \<times> (string \<times> LogLevel \<times> string \<times> jsval) list \<times> string option \<times> string option"
where
  "result_core r =
     (r_success r, r_executedNodes r, map entry_core (r_logs r), r_failedNode r, r_error r)"

definition same_core :: "executor \<Rightarrow> executor \<Rightarrow> bool" where
  "same_core s t =
     (executedNodes s = executedNodes t \<and> nodeConditions s = nodeConditions t \<and>
      map entry_core (logs s) = map entry_core (logs t))"




definition step_throws :: "host \<Rightarrow> clock \<Rightarrow> ExecutionContext \<Rightarrow> WorkflowNode \<Rightarrow> bool" where
  \<comment> \<open>the kind-specific step of the node raises an error on every attempt\<close>
  "step_throws h clk ctx node = (\<forall>s. \<exists>e. fst (node_step h clk node ctx s) = Inl e)"

fun loop_head ::
  "host \<Rightarrow> clock \<Rightarrow> WorkflowNode list \<Rightarrow> Connection list \<Rightarrow> ExecutionContext \<Rightarrow>
   executor \<Rightarrow> nat \<Rightarrow> executor option" where
  \<comment> \<open>the executor at the head of the propagation loop after \<open>k\<close> passes, when the loop
      that starts on \<open>s0\<close> gets that far\<close>
  "loop_head h clk nodes connections ctx s0 0 = Some s0"
| "loop_head h clk nodes connections ctx s0 (Suc k) =
     (case loop_head h clk nodes connections ctx s0 k of
        None \<Rightarrow> None
      | Some s \<Rightarrow>
          if k < maxIterations then
            (case propagate_pass h clk nodes connections ctx nodes (s, False) of
               (s', changed) \<Rightarrow> if changed then Some s' else None)
          else None)"

definition is_start_of :: "WorkflowNode \<Rightarrow> LogEntry \<Rightarrow> bool" where
  \<comment> \<open>a trace entry written at the head of \<^verbatim>\<open>executeNode\<close> for the node\<close>
  "is_start_of node e =
     (le_level e = INIT \<and>
      le_message e = ''Executing '' @ NodeType_text (nd_type node) @ '' node: '' @ nd_name node \<and>
      own_prop (le_details e) ''nodeId'' = Some (JStr (nd_id node)))"

definition is_failure_of :: "WorkflowNode \<Rightarrow> LogEntry \<Rightarrow> bool" where
  \<comment> \<open>a trace entry written by the \<^verbatim>\<open>catch\<close> block of \<^verbatim>\<open>executeNode\<close> for the node\<close>
  "is_failure_of node e =
     (le_level e = ERROR \<and>
      le_message e = ''Error executing '' @ NodeType_text (nd_type node) @ '': '' @ nd_name node \<and>
      own_prop (le_details e) ''nodeId'' = Some (JStr (nd_id node)))"

definition starts_of :: "WorkflowNode \<Rightarrow> LogEntry list \<Rightarrow> nat" where
  "starts_of node trace = length (filter (is_start_of node) trace)"

definition failures_of :: "WorkflowNode \<Rightarrow> LogEntry list \<Rightarrow> nat" where
  "failures_of node trace = length (filter (is_failure_of node) trace)"

definition timeout_entry :: "clock \<Rightarrow> executor \<Rightarrow> LogEntry" where
  "timeout_entry clk s =
     engine_log clk s ''timeout'' ERROR ''Workflow execution timeout - possible infinite loop''
       (JObj [(''iterations'', JNum (Fin (real maxIterations)))])"

definition stuck :: "WorkflowNode list \<Rightarrow> Connection list \<Rightarrow> string \<Rightarrow> executor \<Rightarrow> bool" where
  "stuck nodes connections x s =
     (x \<notin> set (executedNodes s) \<and>
      list_all (\<lambda>c. sourceId c \<in> set (executedNodes s))
        (filter (\<lambda>c. targetId c = x) connections) \<and>
      list_ex (\<lambda>c. nodePassedCondition nodes s (sourceId c))
        (filter (\<lambda>c. targetId c = x) connections))"




section \<open>Example graphs and events\<close>

definition mk_node :: "string \<Rightarrow> NodeType \<Rightarrow> jsval \<Rightarrow> bool \<Rightarrow> WorkflowNode" where
  "mk_node i t d en =
     \<lparr>nd_id = i, nd_type = t, nd_name = i, nd_subtitle = [], nd_position = (Fin 0, Fin 0),
      nd_data = d, nd_enabled = en\<rparr>"

definition mk_conn :: "string \<Rightarrow> string \<Rightarrow> Connection" where
  "mk_conn a b = \<lparr>cn_id = a @ ''-'' @ b, sourceId = a, targetId = b\<rparr>"

definition sample_event :: TestEvent where
  "sample_event =
     \<lparr>ev_type = ''e1'',
      ev_data = Some (JObj [(''coins'', JNum (Fin 500)), (''type'', JStr ''shadowed'')]),
      ev_globals = Some (JObj [(''coins'', JNum (Fin 7))])\<rparr>"

definition template_event :: TestEvent where
  \<comment> \<open>an event without the key \<^verbatim>\<open>globals\<close>, as the templates of the editor give it,
      whose data has a key of that name\<close>
  "template_event =
     \<lparr>ev_type = ''e1'',
      ev_data = Some (JObj [(''gift'', JObj [(''id'', JNum (Fin 16))]),
                            (''globals'', JStr ''mine'')]),
      ev_globals = None\<rparr>"

definition hidden_toString :: jsval where
  \<comment> \<open>the YAML value \<^verbatim>\<open>{toString: 1}\<close>\<close>
  "hidden_toString = JObj [(''toString'', JNum (Fin 1))]"

definition trigger_e1 :: WorkflowNode where
  "trigger_e1 =
     mk_node ''t'' TRIGGER (JObj [(''eventType'', JStr ''e1''), (''name'', JStr ''rule'')]) True"

definition malformed_trigger :: WorkflowNode where
  \<comment> \<open>the event type \<^verbatim>\<open>(*\<close> typed into the editor gives the pattern \<^verbatim>\<open>^(.*$\<close>\<close>
  "malformed_trigger = mk_node ''m'' TRIGGER (JObj [(''eventType'', JStr ''(*'')]) True"




definition broken_filter :: WorkflowNode where
  \<comment> \<open>a grouped filter with a \<^verbatim>\<open>null\<close> sub-condition: reading its \<^verbatim>\<open>field\<close> throws\<close>
  "broken_filter =
     mk_node ''f'' CONDITION (JObj [(''mode'', JStr ''GROUP''), (''conditions'', JArr [JNull])]) True"

definition one_action :: WorkflowNode where
  "one_action = mk_node ''a'' ACTION (JObj [(''actions'', JArr [JObj [(''type'', JStr ''X'')]])]) True"


section \<open>Properties of the comparator\<close>

lemma returns_Inr: "returns m = (\<exists>v. m = Inr v)"
  by (cases m) (simp_all add: returns_def)

lemma to_string_returns:
  "returns (to_string h v) = printable v"
  "returns (element_strings h vs) = all_printable vs"
  by (induction h v and h vs rule: to_string_element_strings.induct)
    (auto simp add: returns_def split: sum.splits)

lemma to_string_error:
  "to_string h v = Inl e \<longrightarrow> e = TypeError"
  "element_strings h vs = Inl e \<longrightarrow> e = TypeError"
  by (induction h v and h vs rule: to_string_element_strings.induct)
    (auto split: sum.splits if_splits)

lemma to_string_raises:
  assumes "\<not> printable v"
  shows "to_string h v = Inl TypeError"
proof (cases "to_string h v")
  case (Inl e)
  with to_string_error(1) [of h v e] show ?thesis by simp
next
  case (Inr s)
  with assms to_string_returns(1) [of h v] show ?thesis by (simp add: returns_def)
qed

lemma to_number_returns: "returns (to_number h v) = printable v"
proof (cases v)
  case (JArr xs)
  then show ?thesis
    using to_string_returns(1) [of h v]
    by (auto simp add: to_number_def bind_def returns_def split: sum.splits)
next
  case (JObj kvs)
  then show ?thesis
    using to_string_returns(1) [of h v]
    by (auto simp add: to_number_def bind_def returns_def split: sum.splits)
qed (simp_all add: to_number_def returns_def)

lemma to_primitive_returns: "printable v \<Longrightarrow> returns (to_primitive h v)"
proof (cases v)
  case (JArr xs)
  assume "printable v"
  with JArr show ?thesis
    using to_string_returns(1) [of h v]
    by (auto simp add: to_primitive_def bind_def returns_def split: sum.splits)
next
  case (JObj kvs)
  assume "printable v"
  with JObj show ?thesis
    using to_string_returns(1) [of h v]
    by (auto simp add: to_primitive_def bind_def returns_def split: sum.splits)
qed (simp_all add: to_primitive_def returns_def)

lemma plain_loose_eq_returns:
  assumes "printable x" and "printable y"
  shows "returns (plain_loose_eq h x y)"
proof -
  from assms obtain px py where "to_primitive h x = Inr px" and "to_primitive h y = Inr py"
    using to_primitive_returns [of x h] to_primitive_returns [of y h]
    by (auto simp add: returns_Inr)
  then show ?thesis by (simp add: plain_loose_eq_def bind_def returns_def)
qed

lemma string_form_or:
  "rt_to_string h (rt_or actual (JStr [])) = string_form h actual"
  "to_string h (js_or expected (JStr [])) = string_form h (Plain expected)"
  by (simp_all add: rt_or_def js_or_def string_form_def rt_to_string_def rt_truthy_def)

lemma printable_converts:
  "converts h (Plain a) e = (printable a \<and> printable e)"
proof -
  have 1: "returns (to_string h (js_or v (JStr [])))" if "printable v" for v
    using that to_string_returns(1) [of h v] by (simp add: js_or_def returns_def)
  have 2: "rt_to_string h (rt_or (Plain v) (JStr [])) = to_string h (js_or v (JStr []))" for v
    by (simp add: rt_or_def js_or_def rt_truthy_def rt_to_string_def)
  show ?thesis
    using 1 [of a] 1 [of e]
    by (auto simp add: converts_def 2 rt_to_number_def to_number_returns)
qed

lemma printable_coerces:
  assumes "printable a" and "printable e"
  shows "coerces h (Plain a) e"
  using assms plain_loose_eq_returns [of a e h]
  by (simp add: coerces_def printable_converts rt_to_string_def loose_eq_def to_string_returns)

lemma compareValues_head:
  assumes "converts h actual expected"
  obtains an en sa se where
    "rt_to_number h actual = Inr an" "to_number h expected = Inr en"
    "rt_to_string h (rt_or actual (JStr [])) = Inr sa"
    "to_string h (js_or expected (JStr [])) = Inr se"
    "string_form h actual = Inr sa" "string_form h (Plain expected) = Inr se"
proof -
  from assms obtain an en sa se where
    "rt_to_number h actual = Inr an" "to_number h expected = Inr en"
    "rt_to_string h (rt_or actual (JStr [])) = Inr sa"
    "to_string h (js_or expected (JStr [])) = Inr se"
    by (auto simp add: converts_def returns_Inr)
  with that show thesis by (simp add: string_form_or)
qed

lemma compareValues_returns:
  assumes "coerces h actual expected"
  shows "\<exists>b. compareValues h actual operator expected = Inr b"
proof -
  from assms have "converts h actual expected" by (simp add: coerces_def)
  then obtain an en sa se where c:
    "rt_to_number h actual = Inr an" "to_number h expected = Inr en"
    "rt_to_string h (rt_or actual (JStr [])) = Inr sa"
    "to_string h (js_or expected (JStr [])) = Inr se"
    by (rule compareValues_head)
  from assms obtain sa' se' q where d:
    "rt_to_string h actual = Inr sa'" "to_string h expected = Inr se'"
    "loose_eq h actual expected = Inr q"
    by (auto simp add: coerces_def returns_Inr)
  show ?thesis
  proof (cases "regexp_new h (h_lower h se)")
    case (Inl e)
    with c d show ?thesis by (simp add: compareValues_def bind_def Let_def, blast)
  next
    case (Inr t)
    with c d show ?thesis by (simp add: compareValues_def bind_def Let_def, blast)
  qed
qed

lemma compareValues_ordering_NaN:
  assumes "converts h actual expected"
    and "operator \<in> ordering_tags"
    and "rt_to_number h actual = Inr NaN \<or> to_number h expected = Inr NaN"
  shows "compareValues h actual operator expected = Inr False"
proof -
  from assms(1) obtain an en sa se where c:
    "rt_to_number h actual = Inr an" "to_number h expected = Inr en"
    "rt_to_string h (rt_or actual (JStr [])) = Inr sa"
    "to_string h (js_or expected (JStr [])) = Inr se"
    by (rule compareValues_head)
  from assms(3) c have n: "isNaN an \<or> isNaN en" by (auto simp add: isNaN_def)
  from assms(2) consider "operator = JStr ''GT''" | "operator = JStr ''>''"
    | "operator = JStr ''LT''" | "operator = JStr ''<''"
    | "operator = JStr ''GTE''" | "operator = JStr ''>=''"
    | "operator = JStr ''LTE''" | "operator = JStr ''<=''"
    by (auto simp add: ordering_tags_def)
  then show ?thesis
  proof cases
    case 1 with c n show ?thesis by (simp add: compareValues_def bind_def Let_def, blast)
  next
    case 2 with c n show ?thesis by (simp add: compareValues_def bind_def Let_def, blast)
  next
    case 3 with c n show ?thesis by (simp add: compareValues_def bind_def Let_def, blast)
  next
    case 4 with c n show ?thesis by (simp add: compareValues_def bind_def Let_def, blast)
  next
    case 5 with c n show ?thesis by (simp add: compareValues_def bind_def Let_def, blast)
  next
    case 6 with c n show ?thesis by (simp add: compareValues_def bind_def Let_def, blast)
  next
    case 7 with c n show ?thesis by (simp add: compareValues_def bind_def Let_def, blast)
  next
    case 8 with c n show ?thesis by (simp add: compareValues_def bind_def Let_def, blast)
  qed
qed

lemma compareValues_unknown:
  assumes "converts h actual expected"
    and "operator \<notin> operator_tags"
  shows "compareValues h actual operator expected = Inr False"
proof -
  from assms(1) obtain an en sa se where c:
    "rt_to_number h actual = Inr an" "to_number h expected = Inr en"
    "rt_to_string h (rt_or actual (JStr [])) = Inr sa"
    "to_string h (js_or expected (JStr [])) = Inr se"
    by (rule compareValues_head)
  with assms(2) show ?thesis
    by (simp add: compareValues_def bind_def Let_def operator_tags_def)
qed

lemma compareValues_contains:
  assumes "converts h actual expected"
  shows "\<exists>a e. string_form h actual = Inr a \<and> string_form h (Plain expected) = Inr e \<and>
           compareValues h actual (JStr ''CONTAINS'') expected
             = Inr (sublist (h_lower h e) (h_lower h a))"
proof -
  from assms obtain an en sa se where c:
    "rt_to_number h actual = Inr an" "to_number h expected = Inr en"
    "rt_to_string h (rt_or actual (JStr [])) = Inr sa"
    "to_string h (js_or expected (JStr [])) = Inr se"
    "string_form h actual = Inr sa" "string_form h (Plain expected) = Inr se"
    by (rule compareValues_head)
  then show ?thesis by (simp add: compareValues_def bind_def Let_def)
qed

lemma compareValues_needs_converts:
  assumes "compareValues h actual operator expected = Inr b"
  shows "converts h actual expected"
  using assms
  by (auto simp add: compareValues_def bind_def converts_def returns_def split: sum.splits)

lemma compareValues_raises:
  assumes "\<not> printable a \<or> \<not> printable expected"
  shows "compareValues h (Plain a) operator expected = Inl TypeError"
proof (cases "printable a")
  case False
  then have "to_string h a = Inl TypeError" by (rule to_string_raises)
  with False have "to_number h a = Inl TypeError"
    by (cases a) (simp_all add: to_number_def bind_def)
  then show ?thesis by (simp add: compareValues_def bind_def rt_to_number_def)
next
  case True
  with assms have e: "\<not> printable expected" by simp
  then have "to_string h expected = Inl TypeError" by (rule to_string_raises)
  with e have "to_number h expected = Inl TypeError"
    by (cases expected) (simp_all add: to_number_def bind_def)
  moreover from True obtain an where "to_number h a = Inr an"
    using to_number_returns [of h a] by (auto simp add: returns_Inr)
  ultimately show ?thesis by (simp add: compareValues_def bind_def rt_to_number_def)
qed

text \<open>
  C4, as amended. \<^verbatim>\<open>compareValues\<close> returns a boolean whenever the conversions of its
  operands to a number, to a string and to a primitive value raise nothing, and they raise
  nothing for JSON-like operands unless an operand is an object with an own property named
  \<^verbatim>\<open>toString\<close> or an array holding one. Whenever the four conversions at its head raise
  nothing, it returns \<open>false\<close> with an ordering operator if the numeric coercion of either
  operand is not-a-number, and \<open>false\<close> with an operator tag that has no \<^verbatim>\<open>case\<close>.
\<close>

theorem compareValues_boolean:
  "(coerces h actual expected \<longrightarrow> (\<exists>b. compareValues h actual operator expected = Inr b)) \<and>
   (printable a \<and> printable expected \<longrightarrow> coerces h (Plain a) expected) \<and>
   (converts h actual expected \<and> operator \<in> ordering_tags \<and>
    (rt_to_number h actual = Inr NaN \<or> to_number h expected = Inr NaN)
      \<longrightarrow> compareValues h actual operator expected = Inr False) \<and>
   (converts h actual expected \<and> operator \<notin> operator_tags
      \<longrightarrow> compareValues h actual operator expected = Inr False)"
  using compareValues_returns [of h actual expected operator]
    printable_coerces [of a expected h]
    compareValues_ordering_NaN [of h actual expected operator]
    compareValues_unknown [of h actual expected operator] by blast

theorem compareValues_boolean_witness:
  "printable (JStr ''abc'') \<and> printable (JNum (Fin 5)) \<and>
   coerces sample_host (Plain (JStr ''abc'')) (JNum (Fin 5)) \<and>
   converts sample_host (Plain (JStr ''abc'')) (JNum (Fin 5)) \<and>
   JStr ''GTE'' \<in> ordering_tags \<and>
   rt_to_number sample_host (Plain (JStr ''abc'')) = Inr NaN \<and>
   compareValues sample_host (Plain (JStr ''abc'')) (JStr ''GTE'') (JNum (Fin 5)) = Inr False \<and>
   JStr ''AFTER'' \<notin> operator_tags \<and>
   compareValues sample_host (Plain (JStr ''abc'')) (JStr ''AFTER'') (JNum (Fin 5)) = Inr False \<and>
   compareValues sample_host (Plain (JStr ''abc'')) (JStr ''LT'') (JNum (Fin 5)) = Inr False \<and>
   compareValues sample_host (Plain (JNum (Fin 3))) (JStr ''LT'') (JNum (Fin 5)) = Inr True"
proof -
  have p: "printable (JStr ''abc'')" "printable (JNum (Fin 5))" by simp_all
  have a: "JStr ''GTE'' \<in> ordering_tags" by (simp add: ordering_tags_def)
  have b: "rt_to_number sample_host (Plain (JStr ''abc'')) = Inr NaN"
    by (simp add: rt_to_number_def to_number_def sample_host_def decimal_number_def
        ascii_trim_def is_space_def is_digit_def)
  have c: "JStr ''AFTER'' \<notin> operator_tags" by (simp add: operator_tags_def)
  from p have v: "converts sample_host (Plain (JStr ''abc'')) (JNum (Fin 5))"
    by (simp add: printable_converts)
  from compareValues_boolean [of sample_host "Plain (JStr ''abc'')" "JNum (Fin 5)" "JStr ''GTE''"
      "JStr ''abc''"] p a b v
  have d: "coerces sample_host (Plain (JStr ''abc'')) (JNum (Fin 5))"
    "compareValues sample_host (Plain (JStr ''abc'')) (JStr ''GTE'') (JNum (Fin 5)) = Inr False"
    by blast+
  from compareValues_boolean [of sample_host "Plain (JStr ''abc'')" "JNum (Fin 5)"
      "JStr ''AFTER''" "JStr ''abc''"] c v
  have e: "compareValues sample_host (Plain (JStr ''abc'')) (JStr ''AFTER'') (JNum (Fin 5))
      = Inr False"
    by blast
  have f: "compareValues sample_host (Plain (JStr ''abc'')) (JStr ''LT'') (JNum (Fin 5))
      = Inr False"
    "compareValues sample_host (Plain (JNum (Fin 3))) (JStr ''LT'') (JNum (Fin 5)) = Inr True"
    by code_simp+
  from p a b c v d e f show ?thesis by blast
qed

text \<open>
  As the claim states it, \<^verbatim>\<open>compareValues\<close> would return a boolean for every operand.
  For the value \<^verbatim>\<open>{toString: 1}\<close>, which an event written in YAML can hold, the
  conversions at the head of the function throw a TypeError, whatever the operator.
\<close>

theorem compareValues_boolean_counterexample:
  "compareValues sample_host (Plain hidden_toString) (JStr ''GT'') (JNum (Fin 5)) = Inl TypeError \<and>
   compareValues sample_host (Plain hidden_toString) (JStr ''EQ'') (JNum (Fin 5)) = Inl TypeError \<and>
   compareValues sample_host (Plain hidden_toString) (JStr ''AFTER'') (JNum (Fin 5)) = Inl TypeError \<and>
   compareValues sample_host (Plain (JNum (Fin 5))) (JStr ''GT'') (JArr [hidden_toString])
     = Inl TypeError"
  by code_simp

text \<open>
  C5, as amended. With the operator \<^verbatim>\<open>CONTAINS\<close>, \<^verbatim>\<open>compareValues\<close> returns a value
  exactly when the four conversions at its head raise nothing, and then it returns true
  exactly when the lower-cased string form of the expected value is a substring of the
  lower-cased string form of the actual value, where a falsy operand (\<^verbatim>\<open>undefined\<close>,
  \<^verbatim>\<open>null\<close>, \<^verbatim>\<open>false\<close>, \<^verbatim>\<open>0\<close>, not-a-number, the empty string) counts as the empty
  string (the guard \<^verbatim>\<open>|| ""\<close>). For two truthy operands this is the case-insensitive
  substring test on their string forms.
\<close>

theorem compareValues_CONTAINS:
  "(converts h actual expected \<longrightarrow>
      (\<exists>a e. string_form h actual = Inr a \<and> string_form h (Plain expected) = Inr e \<and>
         compareValues h actual (JStr ''CONTAINS'') expected
           = Inr (sublist (h_lower h e) (h_lower h a)))) \<and>
   (compareValues h actual (JStr ''CONTAINS'') expected = Inr b \<longrightarrow>
      converts h actual expected) \<and>
   (converts h actual expected \<and> rt_truthy actual \<and> truthy expected \<longrightarrow>
      compareValues h actual (JStr ''CONTAINS'') expected = contains_spec h actual expected) \<and>
   (\<not> rt_truthy actual \<longrightarrow> string_form h actual = Inr []) \<and>
   (\<not> truthy expected \<longrightarrow> string_form h (Plain expected) = Inr [])"
proof -
  note 1 = compareValues_contains [of h actual expected]
  have 2: "compareValues h actual (JStr ''CONTAINS'') expected = contains_spec h actual expected"
    if "converts h actual expected" and "rt_truthy actual" and "truthy expected"
  proof -
    from that(1) obtain a e where c: "string_form h actual = Inr a"
      "string_form h (Plain expected) = Inr e"
      "compareValues h actual (JStr ''CONTAINS'') expected
           = Inr (sublist (h_lower h e) (h_lower h a))"
      using 1 by blast
    from c(1,2) that(2,3) have "rt_to_string h actual = Inr a" "to_string h expected = Inr e"
      by (simp_all add: string_form_def rt_truthy_def rt_to_string_def)
    with c(3) show ?thesis by (simp add: contains_spec_def bind_def)
  qed
  from 1 2 compareValues_needs_converts [of h actual "JStr ''CONTAINS''" expected b]
  show ?thesis by (simp add: string_form_def rt_truthy_def)
qed

theorem compareValues_CONTAINS_witness:
  "converts sample_host (Plain (JStr ''Hello World'')) (JStr ''WORLD'') \<and>
   rt_truthy (Plain (JStr ''Hello World'')) \<and> truthy (JStr ''WORLD'') \<and>
   contains_spec sample_host (Plain (JStr ''Hello World'')) (JStr ''WORLD'') = Inr True \<and>
   compareValues sample_host (Plain (JStr ''Hello World'')) (JStr ''CONTAINS'') (JStr ''WORLD'')
     = Inr True \<and>
   converts sample_host (Plain (JNum (Fin 0))) (JStr ''0'') \<and>
   \<not> rt_truthy (Plain (JNum (Fin 0))) \<and>
   string_form sample_host (Plain (JNum (Fin 0))) = Inr [] \<and>
   compareValues sample_host (Plain (JNum (Fin 0))) (JStr ''CONTAINS'') (JStr ''0'') = Inr False"
proof -
  have t: "rt_truthy (Plain (JStr ''Hello World''))" "truthy (JStr ''WORLD'')"
    "\<not> rt_truthy (Plain (JNum (Fin 0)))"
    by (simp_all add: truthy_def rt_truthy_def)
  have k: "converts sample_host (Plain (JStr ''Hello World'')) (JStr ''WORLD'')"
    "converts sample_host (Plain (JNum (Fin 0))) (JStr ''0'')"
    by (simp_all add: printable_converts)
  have c: "contains_spec sample_host (Plain (JStr ''Hello World'')) (JStr ''WORLD'') = Inr True"
    by code_simp
  from compareValues_CONTAINS [of sample_host "Plain (JStr ''Hello World'')" "JStr ''WORLD''"] t k c
  have d: "compareValues sample_host (Plain (JStr ''Hello World'')) (JStr ''CONTAINS'')
      (JStr ''WORLD'') = Inr True"
    by simp
  from compareValues_CONTAINS [of sample_host "Plain (JNum (Fin 0))" "JStr ''0''"] t k
  obtain e where e: "string_form sample_host (Plain (JNum (Fin 0))) = Inr []"
    "string_form sample_host (Plain (JStr ''0'')) = Inr e"
    "compareValues sample_host (Plain (JNum (Fin 0))) (JStr ''CONTAINS'') (JStr ''0'')
       = Inr (sublist (h_lower sample_host e) (h_lower sample_host []))"
    by auto
  from e(2) have "e = ''0''"
    by (simp add: string_form_def rt_truthy_def truthy_def rt_to_string_def)
  with e(3) have f: "compareValues sample_host (Plain (JNum (Fin 0))) (JStr ''CONTAINS'')
      (JStr ''0'') = Inr False"
    by (simp add: sample_host_def ascii_lower_def)
  from t k c d e(1) f show ?thesis by blast
qed

text \<open>
  As the claim states it, a falsy operand would be tested in its string form, \<^verbatim>\<open>null\<close> as
  \<^verbatim>\<open>"null"\<close> and \<^verbatim>\<open>0\<close> as \<^verbatim>\<open>"0"\<close>; the engine tests the empty string instead.
\<close>

theorem compareValues_CONTAINS_counterexample:
  "contains_spec sample_host (Plain JNull) (JStr ''null'') = Inr True \<and>
   compareValues sample_host (Plain JNull) (JStr ''CONTAINS'') (JStr ''null'') = Inr False \<and>
   contains_spec sample_host (Plain (JStr ''abc'')) JNull = Inr False \<and>
   compareValues sample_host (Plain (JStr ''abc'')) (JStr ''CONTAINS'') JNull = Inr True \<and>
   contains_spec sample_host (Plain (JNum (Fin 0))) (JStr ''0'') = Inr True \<and>
   compareValues sample_host (Plain (JNum (Fin 0))) (JStr ''CONTAINS'') (JStr ''0'') = Inr False"
  by code_simp

section \<open>Properties of the field resolver\<close>

lemma map_of_rev_distinct: "distinct (map fst xs) \<Longrightarrow> map_of (rev xs) = map_of xs"
  by (induction xs) (auto simp add: map_add_def fun_eq_iff split: option.splits dest: map_of_SomeD intro: rev_image_eqI)

lemma obj_assign_distinct:
  "distinct (map fst base) \<Longrightarrow> distinct (map fst (obj_assign base src))"
  unfolding obj_assign_def
  by (induction src arbitrary: base) (auto simp add: distinct_update)

lemma obj_lookup_update:
  "distinct (map fst base) \<Longrightarrow>
   obj_lookup (AList.update k v base) x = (if x = k then Some v else obj_lookup base x)"
  by (simp add: obj_lookup_def map_of_rev_distinct distinct_update update_conv')

lemma obj_lookup_assign:
  "distinct (map fst base) \<Longrightarrow>
   obj_lookup (obj_assign base src) x =
     (case obj_lookup src x of Some v \<Rightarrow> Some v | None \<Rightarrow> obj_lookup base x)"
proof (induction src arbitrary: base)
  case Nil
  then show ?case by (simp add: obj_assign_def obj_lookup_def)
next
  case (Cons kv src)
  obtain k v where kv: "kv = (k, v)" by (cases kv)
  have d: "distinct (map fst (AList.update k v base))"
    using Cons.prems by (simp add: distinct_update)
  have "obj_lookup (obj_assign base (kv # src)) x
          = obj_lookup (obj_assign (AList.update k v base) src) x"
    by (simp add: obj_assign_def kv)
  also have "\<dots> = (case obj_lookup src x of Some w \<Rightarrow> Some w
                     | None \<Rightarrow> obj_lookup (AList.update k v base) x)"
    using Cons.IH [OF d] .
  also have "\<dots> = (case obj_lookup (kv # src) x of Some w \<Rightarrow> Some w
                     | None \<Rightarrow> obj_lookup base x)"
  proof -
    have u: "obj_lookup (AList.update k v base) x = (if x = k then Some v else obj_lookup base x)"
      using Cons.prems by (rule obj_lookup_update)
    have c: "obj_lookup (kv # src) x =
        (case obj_lookup src x of Some w \<Rightarrow> Some w | None \<Rightarrow> if x = k then Some v else None)"
      by (simp add: obj_lookup_def kv map_add_def split: option.splits)
    show ?thesis unfolding u c by (simp split: option.splits)
  qed
  finally show ?case .
qed

lemma merged_view_lookup: "obj_lookup (merged_view ctx) k = overlay_lookup ctx k"
proof -
  have d1: "distinct (map fst (obj_assign [] (spread (cx_data ctx))))"
    by (rule obj_assign_distinct) simp
  have d2: "distinct (map fst (obj_assign (obj_assign [] (spread (cx_data ctx)))
              (event_props (cx_event ctx))))"
    by (rule obj_assign_distinct [OF d1])
  have e: "obj_lookup [] k = None" by (simp add: obj_lookup_def)
  show ?thesis
    unfolding merged_view_def overlay_lookup_def
    by (simp add: obj_lookup_assign [OF d2] obj_lookup_assign [OF d1] obj_lookup_assign [of "[]"] e
        split: option.splits)
qed

lemma split_on_nonempty: "split_on c s \<noteq> []"
  by (induction s) (auto split: list.splits)

lemma split_on_append: "split_on c (p @ c # q) = split_on c p @ split_on c q"
proof (induction p)
  case Nil
  then show ?case by simp
next
  case (Cons x p)
  obtain a as where s: "split_on c p = a # as"
    using split_on_nonempty [of c p] by (cases "split_on c p") auto
  with Cons show ?case by simp
qed

lemma split_on_single: "c \<notin> set k \<Longrightarrow> split_on c k = [k]"
  by (induction k) auto

lemma walk_undefined: "walk h (Plain JUndefined) qs = Inr (Plain JUndefined)"
  by (cases qs) simp_all

lemma walk_null: "qs \<noteq> [] \<Longrightarrow> walk h (Plain JNull) qs = Inr (Plain JUndefined)"
  by (cases qs) simp_all

lemma walk_append: "walk h v (ps @ qs) = bind (walk h v ps) (\<lambda>u. walk h u qs)"
proof (induction ps arbitrary: v)
  case Nil
  then show ?case by (simp add: bind_def)
next
  case (Cons p ps)
  show ?case
  proof (cases "v = Plain JNull \<or> v = Plain JUndefined")
    case True
    then show ?thesis by (simp add: bind_def walk_undefined)
  next
    case False
    then show ?thesis
      by (cases "get_member h v p") (simp_all add: bind_def Cons.IH)
  qed
qed

lemma walk_single:
  "walk h u [k] =
     (if u = Plain JNull \<or> u = Plain JUndefined then Inr (Plain JUndefined)
      else get_member h u k)"
  by (cases "get_member h u k") simp_all

lemma getValueFromPath_string:
  "getValueFromPath h (JStr p) ctx =
     (if p = [] then Inr (Plain JUndefined)
      else walk h (Plain (JObj (merged_view ctx))) (split_on CHR ''.'' p))"
  by (simp add: getValueFromPath_def truthy_def)

lemma getValueFromPath_key:
  assumes "k \<noteq> []" and "CHR ''.'' \<notin> set k"
  shows "getValueFromPath h (JStr k) ctx =
     (case overlay_lookup ctx k of
        Some v \<Rightarrow> Inr (Plain v)
      | None \<Rightarrow> h_inherited h (JObj (merged_view ctx)) k)"
  using assms merged_view_lookup [of ctx k]
  by (simp add: getValueFromPath_string split_on_single walk_single get_member_def
      is_nullish_def own_prop_def del: walk.simps split: option.splits)

lemma getValueFromPath_step:
  assumes "p \<noteq> []" and "CHR ''.'' \<notin> set k"
  shows "getValueFromPath h (JStr (p @ ''.'' @ k)) ctx =
     bind (getValueFromPath h (JStr p) ctx)
       (\<lambda>u. if u = Plain JNull \<or> u = Plain JUndefined then Inr (Plain JUndefined)
            else get_member h u k)"
proof -
  have "split_on CHR ''.'' (p @ ''.'' @ k) = split_on CHR ''.'' p @ [k]"
    using assms(2) by (simp add: split_on_append split_on_single)
  with assms(1) show ?thesis
    by (simp add: getValueFromPath_string walk_append walk_single del: walk.simps)
qed

lemma getValueFromPath_absent:
  assumes "p \<noteq> []" and "getValueFromPath h (JStr p) ctx = Inr u"
    and "u = Plain JNull \<or> u = Plain JUndefined"
  shows "getValueFromPath h (JStr (p @ ''.'' @ q)) ctx = Inr (Plain JUndefined)"
proof -
  have "split_on CHR ''.'' (p @ ''.'' @ q) = split_on CHR ''.'' p @ split_on CHR ''.'' q"
    by (simp add: split_on_append)
  moreover from assms(1,2) have "walk h (Plain (JObj (merged_view ctx))) (split_on CHR ''.'' p) = Inr u"
    by (simp add: getValueFromPath_string)
  ultimately show ?thesis
    using assms(1,3) split_on_nonempty [of "CHR ''.''" q]
    by (auto simp add: getValueFromPath_string walk_append bind_def walk_undefined walk_null)
qed

text \<open>
  C6. For every path string and context: a key is looked up in the merged view in the
  globals first, then in the event object, then in the event data (later overlays win);
  a path of one name resolves to that entry of the merged view, and to what the view
  inherits under that name when it has no such entry; a path that ends in \<^verbatim>\<open>.name\<close>
  resolves to the property \<^verbatim>\<open>name\<close> of what the path before it resolves to, so that the
  path is walked name by name; and whenever a prefix of the path resolves to \<^verbatim>\<open>undefined\<close>
  or \<^verbatim>\<open>null\<close>, the path resolves to \<^verbatim>\<open>undefined\<close> and nothing is thrown. The empty path
  resolves to \<^verbatim>\<open>undefined\<close>.
\<close>

theorem getValueFromPath_resolves:
  "obj_lookup (merged_view ctx) k = overlay_lookup ctx k \<and>
   getValueFromPath h (JStr []) ctx = Inr (Plain JUndefined) \<and>
   (k \<noteq> [] \<and> CHR ''.'' \<notin> set k \<longrightarrow>
      getValueFromPath h (JStr k) ctx =
        (case overlay_lookup ctx k of
           Some v \<Rightarrow> Inr (Plain v)
         | None \<Rightarrow> h_inherited h (JObj (merged_view ctx)) k)) \<and>
   (p \<noteq> [] \<and> CHR ''.'' \<notin> set k \<longrightarrow>
      getValueFromPath h (JStr (p @ ''.'' @ k)) ctx =
        bind (getValueFromPath h (JStr p) ctx)
          (\<lambda>u. if u = Plain JNull \<or> u = Plain JUndefined then Inr (Plain JUndefined)
               else get_member h u k)) \<and>
   (p \<noteq> [] \<and> getValueFromPath h (JStr p) ctx = Inr u \<and>
    (u = Plain JNull \<or> u = Plain JUndefined) \<longrightarrow>
      getValueFromPath h (JStr (p @ ''.'' @ q)) ctx = Inr (Plain JUndefined))"
  using merged_view_lookup [of ctx k] getValueFromPath_key [of k h ctx]
    getValueFromPath_step [of p k h ctx] getValueFromPath_absent [of p h ctx u q]
  by (simp add: getValueFromPath_string)

theorem getValueFromPath_resolves_witness:
  "overlay_lookup (make_context sample_event) ''coins'' = Some (JNum (Fin 7)) \<and>
   getValueFromPath sample_host (JStr ''coins'') (make_context sample_event)
     = Inr (Plain (JNum (Fin 7))) \<and>
   getValueFromPath sample_host (JStr ''data'') (make_context sample_event)
     = Inr (Plain (JObj [(''coins'', JNum (Fin 500)), (''type'', JStr ''shadowed'')])) \<and>
   getValueFromPath sample_host (JStr ''data.coins'') (make_context sample_event)
     = Inr (Plain (JNum (Fin 500))) \<and>
   getValueFromPath sample_host (JStr ''a'') (make_context sample_event)
     = Inr (Plain JUndefined) \<and>
   getValueFromPath sample_host (JStr ''a.b.c'') (make_context sample_event)
     = Inr (Plain JUndefined) \<and>
   getValueFromPath sample_host (JStr ''type'') (make_context sample_event)
     = Inr (Plain (JStr ''e1'')) \<and>
   getValueFromPath sample_host (JStr ''globals'') (make_context template_event)
     = Inr (Plain (JStr ''mine'')) \<and>
   getValueFromPath sample_host (JStr ''gift.id'') (make_context template_event)
     = Inr (Plain (JNum (Fin 16))) \<and>
   getValueFromPath sample_host (JStr ''constructor'') (make_context template_event)
     = Inr (Native ''Object'') \<and>
   getValueFromPath sample_host (JStr ''constructor.name'') (make_context template_event)
     = Inr (Plain (JStr ''Object''))"
proof -
  let ?c = "make_context sample_event"
  let ?t = "make_context template_event"
  have nd: "CHR ''.'' \<notin> set ''coins''" "CHR ''.'' \<notin> set ''name''" "CHR ''.'' \<notin> set ''type''"
    "CHR ''.'' \<notin> set ''constructor''"
    by simp_all
  have o: "overlay_lookup ?c ''coins'' = Some (JNum (Fin 7))"
    "overlay_lookup ?c ''type'' = Some (JStr ''e1'')"
    "overlay_lookup ?t ''constructor'' = None"
    by code_simp+
  have i: "h_inherited sample_host (JObj (merged_view ?t)) ''constructor'' = Inr (Native ''Object'')"
    by (simp add: sample_host_def)
  have 1: "getValueFromPath sample_host (JStr ''coins'') ?c = Inr (Plain (JNum (Fin 7)))"
    using getValueFromPath_resolves [of ?c "''coins''" sample_host "''data''"] nd o by simp
  have 2: "getValueFromPath sample_host (JStr ''type'') ?c = Inr (Plain (JStr ''e1''))"
    using getValueFromPath_resolves [of ?c "''type''" sample_host "''data''"] nd o by simp
  have d: "getValueFromPath sample_host (JStr ''data'') ?c
      = Inr (Plain (JObj [(''coins'', JNum (Fin 500)), (''type'', JStr ''shadowed'')]))"
    by code_simp
  have g: "get_member sample_host
      (Plain (JObj [(''coins'', JNum (Fin 500)), (''type'', JStr ''shadowed'')])) ''coins''
      = Inr (Plain (JNum (Fin 500)))"
    by code_simp
  have 3: "getValueFromPath sample_host (JStr ''data.coins'') ?c = Inr (Plain (JNum (Fin 500)))"
    using getValueFromPath_resolves [of ?c "''coins''" sample_host "''data''"] nd d g
    by (simp add: bind_def)
  have a: "getValueFromPath sample_host (JStr ''a'') ?c = Inr (Plain JUndefined)"
    by code_simp
  have 4: "getValueFromPath sample_host (JStr ''a.b.c'') ?c = Inr (Plain JUndefined)"
    using getValueFromPath_resolves [of ?c "''coins''" sample_host "''a''" "Plain JUndefined"
        "''b.c''"] a
    by simp
  have 5: "getValueFromPath sample_host (JStr ''constructor'') ?t = Inr (Native ''Object'')"
    using getValueFromPath_resolves [of ?t "''constructor''" sample_host "''data''"] nd o i
    by simp
  have n: "get_member sample_host (Native ''Object'') ''name'' = Inr (Plain (JStr ''Object''))"
    by (simp add: get_member_def sample_host_def)
  have 6: "getValueFromPath sample_host (JStr ''constructor.name'') ?t
      = Inr (Plain (JStr ''Object''))"
    using getValueFromPath_resolves [of ?t "''name''" sample_host "''constructor''"] nd 5 n
    by (simp add: bind_def)
  have 7: "getValueFromPath sample_host (JStr ''globals'') ?t = Inr (Plain (JStr ''mine''))"
    "getValueFromPath sample_host (JStr ''gift.id'') ?t = Inr (Plain (JNum (Fin 16)))"
    by code_simp+
  from o(1) 1 2 d 3 a 4 5 6 7 show ?thesis by simp
qed

section \<open>Properties of the condition evaluator\<close>

text \<open>
  A sub-condition evaluates to a boolean when its field path resolves and the conversions
  of the resolved value and of the configured value raise nothing.
\<close>

lemma simple_triple_evaluates:
  assumes "get_prop c ''field'' = Inr f"
    and "getValueFromPath h (js_or f (JStr [])) ctx = Inr v"
    and "get_prop c ''value'' = Inr ev"
    and "coerces h v ev"
  shows "\<exists>b. evaluateSimpleCondition h c ctx = Inr b"
proof -
  from assms(1) have "\<not> is_nullish c"
    by (auto simp add: get_prop_def split: if_splits)
  then obtain op where o: "get_prop c ''operator'' = Inr op"
    by (simp add: get_prop_def)
  from compareValues_returns [OF assms(4), of "js_or op (JStr ''EQ'')"] assms(1,2,3) o
  show ?thesis by (simp add: evaluateSimpleCondition_def bind_def)
qed






section \<open>Properties of node execution\<close>

lemma addLog_fields [simp]:
  "executedNodes (addLog s e) = executedNodes s"
  "nodeConditions (addLog s e) = nodeConditions s"
  "logs (addLog s e) = logs s @ [e]"
  by (simp_all add: addLog_def)

lemma engine_log_fields [simp]:
  "le_level (engine_log clk s tag lvl msg det) = lvl"
  "le_message (engine_log clk s tag lvl msg det) = msg"
  "le_details (engine_log clk s tag lvl msg det) = det"
  "le_type (engine_log clk s tag lvl msg det) = ''ENGINE''"
  by (simp_all add: engine_log_def)

lemma executeSingleAction_frame:
  assumes "executeSingleAction h clk a i s = (r, s')"
  shows "executedNodes s' = executedNodes s \<and> nodeConditions s' = nodeConditions s"
  using assms by (auto simp add: executeSingleAction_def split: sum.splits)

lemma executeActions_frame:
  assumes "executeActions h clk as i s = (r, s')"
  shows "executedNodes s' = executedNodes s \<and> nodeConditions s' = nodeConditions s"
  using assms
proof (induction as arbitrary: i s)
  case Nil
  then show ?case by simp
next
  case (Cons a as)
  obtain r1 s1 where one: "executeSingleAction h clk a i s = (r1, s1)"
    by (cases "executeSingleAction h clk a i s")
  note f = executeSingleAction_frame [OF one]
  show ?case
  proof (cases r1)
    case (Inl e)
    with Cons.prems one f show ?thesis by simp
  next
    case (Inr u)
    with Cons.prems one have "executeActions h clk as (Suc i) s1 = (r, s')" by simp
    from Cons.IH [OF this] f show ?thesis by simp
  qed
qed

lemma executeTrigger_frame:
  assumes "executeTrigger h clk n ctx s = (r, s')"
  shows "executedNodes s' = executedNodes s \<and>
         (case r of Inl e \<Rightarrow> nodeConditions s' = nodeConditions s
          | Inr u \<Rightarrow> nodeConditions s' = (nodeConditions s)(nd_id n \<mapsto> True))"
  using assms by (auto simp add: executeTrigger_def split: sum.splits)

lemma executeCondition_frame:
  assumes "executeCondition h clk n ctx s = (r, s')"
  shows "executedNodes s' = executedNodes s \<and>
         (case r of Inl e \<Rightarrow> nodeConditions s' = nodeConditions s
          | Inr u \<Rightarrow> \<exists>b. nodeConditions s' = (nodeConditions s)(nd_id n \<mapsto> b))"
  using assms by (auto simp add: executeCondition_def split: sum.splits prod.splits)

lemma executeAction_frame:
  assumes "executeAction h clk n ctx s = (r, s')"
  shows "executedNodes s' = executedNodes s \<and>
         (case r of Inl e \<Rightarrow> nodeConditions s' = nodeConditions s
          | Inr u \<Rightarrow> nodeConditions s' = (nodeConditions s)(nd_id n \<mapsto> True))"
proof (cases "action_start h clk n s")
  case (Inl e)
  with assms show ?thesis by (auto simp add: executeAction_def)
next
  case (Inr t)
  obtain entry actions len where t: "t = (entry, actions, len)" by (cases t)
  obtain r1 s1 where run: "executeActions h clk actions 0 (addLog s entry) = (r1, s1)"
    by (cases "executeActions h clk actions 0 (addLog s entry)")
  note f = executeActions_frame [OF run]
  show ?thesis
  proof (cases r1)
    case (Inl e)
    with assms Inr t run f show ?thesis by (auto simp add: executeAction_def)
  next
    case (Inr u)
    with assms \<open>action_start h clk n s = Inr t\<close> t run f show ?thesis
      by (auto simp add: executeAction_def)
  qed
qed

lemma node_step_frame:
  assumes "node_step h clk n ctx s = (r, s')"
  shows "executedNodes s' = executedNodes s \<and>
         (case r of Inl e \<Rightarrow> nodeConditions s' = nodeConditions s
          | Inr u \<Rightarrow> \<exists>b. nodeConditions s' = (nodeConditions s)(nd_id n \<mapsto> b))"
proof (cases "nd_type n")
  case TRIGGER
  with assms executeTrigger_frame [of h clk n ctx s r s'] show ?thesis
    by (auto simp add: node_step_def split: sum.splits)
next
  case CONDITION
  with assms executeCondition_frame [of h clk n ctx s r s'] show ?thesis
    by (simp add: node_step_def)
next
  case ACTION
  with assms executeAction_frame [of h clk n ctx s r s'] show ?thesis
    by (auto simp add: node_step_def split: sum.splits)
qed

lemma fire_triggers_returns:
  assumes "\<forall>n\<in>set ts. \<exists>b. shouldExecuteTrigger h n ev = Inr b"
  shows "\<exists>s'. fire_triggers h clk ctx ev ts s = Inr s'"
  using assms by (induction ts arbitrary: s) auto

lemma execute_no_trigger:
  assumes "enabled_triggers nodes = []"
  shows "\<exists>r. execute h clk nodes connections ev = Inr r \<and> r_success r = False \<and>
             r_error r = Some ''No trigger nodes found'' \<and> r_executedNodes r = []"
  using assms by (simp add: execute_def enabled_triggers_def Let_def)

lemma execute_with_trigger:
  assumes "enabled_triggers nodes \<noteq> []" and "execute h clk nodes connections ev = Inr r"
  shows "r_success r = True"
  using assms by (auto simp add: execute_def enabled_triggers_def Let_def split: sum.splits)

lemma execute_returns:
  assumes "\<forall>n\<in>set (enabled_triggers nodes). \<exists>b. shouldExecuteTrigger h n ev = Inr b"
  shows "\<exists>r. execute h clk nodes connections ev = Inr r"
proof (cases "enabled_triggers nodes = []")
  case True
  from execute_no_trigger [OF this] show ?thesis by blast
next
  case False
  from fire_triggers_returns [OF assms]
  obtain s' where "fire_triggers h clk (make_context ev) ev (enabled_triggers nodes) new_executor = Inr s'"
    by blast
  with False show ?thesis by (simp add: execute_def enabled_triggers_def Let_def)
qed

text \<open>
  C3. When the kind-specific step of a node raises an error, \<^verbatim>\<open>executeNode\<close> catches
  it: it appends an ERROR trace entry and returns, the executed set and the condition
  outcomes are as before the attempt, and the loop that attempted the node (the
  propagation pass, or the loop over the triggers) goes on with the remaining nodes.
  Whatever the node steps do, the run returns a result whenever matching the triggers
  against the event raises nothing.
\<close>

theorem executeNode_contains_fault:
  assumes "node_step h clk node ctx (addLog s (start_entry clk s node)) = (Inl e, s2)"
  shows "executeNode h clk node ctx s = addLog s2 (error_entry h clk s2 node e) \<and>
         le_level (error_entry h clk s2 node e) = ERROR \<and>
         executedNodes (executeNode h clk node ctx s) = executedNodes s \<and>
         nodeConditions (executeNode h clk node ctx s) = nodeConditions s \<and>
         (gates_clear nodes connections s node \<longrightarrow>
            propagate_pass h clk nodes connections ctx (node # rest) (s, changed)
              = propagate_pass h clk nodes connections ctx rest
                  (addLog s2 (error_entry h clk s2 node e), True)) \<and>
         (shouldExecuteTrigger h node event = Inr True \<longrightarrow>
            fire_triggers h clk ctx event (node # rest) s
              = fire_triggers h clk ctx event rest (addLog s2 (error_entry h clk s2 node e))) \<and>
         ((\<forall>n\<in>set (enabled_triggers all_nodes). \<exists>b. shouldExecuteTrigger h n event = Inr b) \<longrightarrow>
            (\<exists>r. execute h clk all_nodes connections event = Inr r))"
proof -
  have run: "executeNode h clk node ctx s = addLog s2 (error_entry h clk s2 node e)"
    using assms by (simp add: executeNode_def)
  from node_step_frame [OF assms]
  have "executedNodes s2 = executedNodes s" "nodeConditions s2 = nodeConditions s"
    by simp_all
  with run execute_returns [of all_nodes h event clk connections]
  show ?thesis by (simp add: error_entry_def)
qed

theorem executeNode_contains_fault_witness:
  "fst (node_step sample_host sample_clock broken_filter (make_context sample_event)
         (addLog new_executor (start_entry sample_clock new_executor broken_filter)))
     = Inl TypeError \<and>
   le_level (last (logs (executeNode sample_host sample_clock broken_filter
       (make_context sample_event) new_executor))) = ERROR \<and>
   executedNodes (executeNode sample_host sample_clock broken_filter
       (make_context sample_event) new_executor) = []"
proof -
  let ?ctx = "make_context sample_event"
  let ?s1 = "addLog new_executor (start_entry sample_clock new_executor broken_filter)"
  define s2 where "s2 = snd (node_step sample_host sample_clock broken_filter ?ctx ?s1)"
  have a: "fst (node_step sample_host sample_clock broken_filter ?ctx ?s1) = Inl TypeError"
    by code_simp
  then have st: "node_step sample_host sample_clock broken_filter ?ctx ?s1 = (Inl TypeError, s2)"
    by (simp add: s2_def prod_eq_iff)
  have e: "executedNodes new_executor = []" by (simp add: new_executor_def)
  note th = executeNode_contains_fault [OF st, where nodes = "[]" and connections = "[]"
      and rest = "[]" and changed = False and event = sample_event and all_nodes = "[]"]
  from th have r: "executeNode sample_host sample_clock broken_filter ?ctx new_executor
      = addLog s2 (error_entry sample_host sample_clock s2 broken_filter TypeError)"
    by blast
  from th have x: "executedNodes (executeNode sample_host sample_clock broken_filter ?ctx
      new_executor) = executedNodes new_executor"
    by blast
  have l: "le_level (last (logs (executeNode sample_host sample_clock broken_filter ?ctx
      new_executor))) = ERROR"
    unfolding r by (simp add: addLog_def error_entry_def engine_log_def)
  from a l x e show ?thesis by simp
qed

section \<open>Properties of a run\<close>

text \<open>
  C2, as amended. Whenever \<^verbatim>\<open>execute\<close> returns a result, \<^verbatim>\<open>success\<close> is false if and
  only if the enabled nodes contain no trigger; in that case the result carries the error
  \<^verbatim>\<open>No trigger nodes found\<close> and an empty executed set. It returns a result whenever
  matching the enabled triggers against the event raises nothing.
\<close>

theorem execute_success_iff:
  "(execute h clk nodes connections ev = Inr r \<longrightarrow>
      (r_success r = False \<longleftrightarrow> enabled_triggers nodes = []) \<and>
      (r_success r = False \<longrightarrow>
         r_error r = Some ''No trigger nodes found'' \<and> r_executedNodes r = [])) \<and>
   ((\<forall>n\<in>set (enabled_triggers nodes). \<exists>b. shouldExecuteTrigger h n ev = Inr b) \<longrightarrow>
      (\<exists>r'. execute h clk nodes connections ev = Inr r'))"
proof -
  have "r_success r = False \<longleftrightarrow> enabled_triggers nodes = []"
    if "execute h clk nodes connections ev = Inr r"
    using that execute_no_trigger [of nodes h clk connections ev]
      execute_with_trigger [of nodes h clk connections ev r] by auto
  moreover have "r_error r = Some ''No trigger nodes found'' \<and> r_executedNodes r = []"
    if "execute h clk nodes connections ev = Inr r" "r_success r = False"
    using that execute_no_trigger [of nodes h clk connections ev]
      execute_with_trigger [of nodes h clk connections ev r] by auto
  ultimately show ?thesis using execute_returns [of nodes h ev clk connections] by blast
qed

text \<open>
  As the claim states it, every run returns a result. A trigger whose event type is
  \<^verbatim>\<open>(*\<close> makes \<^verbatim>\<open>shouldExecuteTrigger\<close> build a malformed pattern; the constructor
  throws outside every \<^verbatim>\<open>try\<close> block and the run ends with the error.
\<close>

theorem execute_success_iff_counterexample:
  "enabled_triggers [malformed_trigger] = [malformed_trigger] \<and>
   shouldExecuteTrigger sample_host malformed_trigger sample_event = Inl SyntaxError \<and>
   execute sample_host sample_clock [malformed_trigger] [] sample_event = Inl SyntaxError"
  by code_simp

theorem execute_success_iff_witness:
  "enabled_triggers [trigger_e1, one_action] = [trigger_e1] \<and>
   shouldExecuteTrigger sample_host trigger_e1 sample_event = Inr True \<and>
   map_sum id r_success
     (execute sample_host sample_clock [trigger_e1, one_action] [mk_conn ''t'' ''a''] sample_event)
     = Inr True \<and>
   enabled_triggers [one_action] = [] \<and>
   map_sum id (\<lambda>r. (r_success r, r_error r, r_executedNodes r))
     (execute sample_host sample_clock [one_action] [mk_conn ''t'' ''a''] sample_event)
     = Inr (False, Some ''No trigger nodes found'', [])"
proof -
  have a: "enabled_triggers [trigger_e1, one_action] = [trigger_e1]" by code_simp
  have b: "shouldExecuteTrigger sample_host trigger_e1 sample_event = Inr True" by code_simp
  have c: "enabled_triggers [one_action] = []" by code_simp
  have all: "\<forall>n\<in>set (enabled_triggers [trigger_e1, one_action]).
      \<exists>b. shouldExecuteTrigger sample_host n sample_event = Inr b"
    using a b by auto
  from execute_success_iff [of sample_host sample_clock "[trigger_e1, one_action]"
      "[mk_conn ''t'' ''a'']" sample_event] all
  obtain r1 where r1: "execute sample_host sample_clock [trigger_e1, one_action]
      [mk_conn ''t'' ''a''] sample_event = Inr r1" by blast
  from execute_success_iff [of sample_host sample_clock "[trigger_e1, one_action]"
      "[mk_conn ''t'' ''a'']" sample_event r1] r1 a
  have s1: "r_success r1 = True" by auto
  from execute_success_iff [of sample_host sample_clock "[one_action]"
      "[mk_conn ''t'' ''a'']" sample_event] c
  obtain r2 where r2: "execute sample_host sample_clock [one_action]
      [mk_conn ''t'' ''a''] sample_event = Inr r2" by auto
  from execute_success_iff [of sample_host sample_clock "[one_action]"
      "[mk_conn ''t'' ''a'']" sample_event r2] r2 c
  have s2: "r_success r2 = False \<and> r_error r2 = Some ''No trigger nodes found'' \<and>
      r_executedNodes r2 = []" by auto
  from a b c r1 s1 r2 s2 show ?thesis by simp
qed

section \<open>Independence of the clock\<close>

lemma entry_core_engine_log [simp]:
  "entry_core (engine_log clk s tag lvl msg det) = (''ENGINE'', lvl, msg, det)"
  by (simp add: entry_core_def engine_log_def)

lemma same_core_addLog:
  "same_core s t \<Longrightarrow> entry_core e = entry_core e' \<Longrightarrow> same_core (addLog s e) (addLog t e')"
  by (simp add: same_core_def addLog_def)

lemma trigger_entry_core:
  "map_sum id entry_core (trigger_entry h c1 n ctx s) = map_sum id entry_core (trigger_entry h c2 n ctx t)"
  by (simp add: trigger_entry_def bind_def split: sum.splits)

lemma executeTrigger_core:
  assumes "same_core s t"
  shows "fst (executeTrigger h c1 n ctx s) = fst (executeTrigger h c2 n ctx t) \<and>
         same_core (snd (executeTrigger h c1 n ctx s)) (snd (executeTrigger h c2 n ctx t))"
proof (cases "trigger_entry h c1 n ctx s")
  case (Inl e)
  with trigger_entry_core [of h c1 n ctx s c2 t] have "trigger_entry h c2 n ctx t = Inl e"
    by (cases "trigger_entry h c2 n ctx t") simp_all
  with Inl assms show ?thesis by (simp add: executeTrigger_def)
next
  case (Inr e)
  with trigger_entry_core [of h c1 n ctx s c2 t]
  obtain e' where e': "trigger_entry h c2 n ctx t = Inr e'" "entry_core e = entry_core e'"
    by (cases "trigger_entry h c2 n ctx t") simp_all
  from same_core_addLog [OF assms e'(2)] assms Inr e'(1) show ?thesis
    by (simp add: executeTrigger_def same_core_def)
qed

lemma executeCondition_core:
  assumes "same_core s t"
  shows "fst (executeCondition h c1 n ctx s) = fst (executeCondition h c2 n ctx t) \<and>
         same_core (snd (executeCondition h c1 n ctx s)) (snd (executeCondition h c2 n ctx t))"
proof (cases "condition_passed h n ctx")
  case (Inl e)
  with assms show ?thesis by (simp add: executeCondition_def)
next
  case (Inr mp)
  obtain m p where "mp = (m, p)" by (cases mp)
  with Inr assms show ?thesis
    by (simp add: executeCondition_def same_core_def)
qed

lemma single_action_entry_core:
  "map_sum id entry_core (single_action_entry h c1 a i s)
     = map_sum id entry_core (single_action_entry h c2 a i t)"
  by (simp add: single_action_entry_def bind_def split: sum.splits)

lemma executeSingleAction_core:
  assumes "same_core s t"
  shows "fst (executeSingleAction h c1 a i s) = fst (executeSingleAction h c2 a i t) \<and>
         same_core (snd (executeSingleAction h c1 a i s)) (snd (executeSingleAction h c2 a i t))"
proof (cases "single_action_entry h c1 a i s")
  case (Inl e)
  with single_action_entry_core [of h c1 a i s c2 t]
  have "single_action_entry h c2 a i t = Inl e"
    by (cases "single_action_entry h c2 a i t") simp_all
  with Inl assms show ?thesis by (simp add: executeSingleAction_def)
next
  case (Inr e)
  with single_action_entry_core [of h c1 a i s c2 t]
  obtain e' where e': "single_action_entry h c2 a i t = Inr e'" "entry_core e = entry_core e'"
    by (cases "single_action_entry h c2 a i t") simp_all
  from same_core_addLog [OF assms e'(2)] Inr e'(1) show ?thesis
    by (simp add: executeSingleAction_def)
qed

lemma executeActions_core:
  assumes "same_core s t"
  shows "fst (executeActions h c1 as i s) = fst (executeActions h c2 as i t) \<and>
         same_core (snd (executeActions h c1 as i s)) (snd (executeActions h c2 as i t))"
  using assms
proof (induction as arbitrary: i s t)
  case Nil
  then show ?case by simp
next
  case (Cons a as)
  obtain r1 s1 where l: "executeSingleAction h c1 a i s = (r1, s1)"
    by (cases "executeSingleAction h c1 a i s")
  obtain r2 t1 where r: "executeSingleAction h c2 a i t = (r2, t1)"
    by (cases "executeSingleAction h c2 a i t")
  from executeSingleAction_core [OF Cons.prems, of h c1 a i c2] l r
  have eq: "r1 = r2" and sc: "same_core s1 t1" by simp_all
  show ?case
  proof (cases r1)
    case (Inl e)
    with eq sc l r show ?thesis by auto
  next
    case (Inr u)
    with eq l r Cons.IH [OF sc, of "Suc i"] show ?thesis by auto
  qed
qed

lemma action_start_core:
  "map_sum id (\<lambda>(e, x). (entry_core e, x)) (action_start h c1 n s)
     = map_sum id (\<lambda>(e, x). (entry_core e, x)) (action_start h c2 n t)"
  by (simp add: action_start_def bind_def Let_def split: sum.splits)

lemma executeAction_core:
  assumes "same_core s t"
  shows "fst (executeAction h c1 n ctx s) = fst (executeAction h c2 n ctx t) \<and>
         same_core (snd (executeAction h c1 n ctx s)) (snd (executeAction h c2 n ctx t))"
proof (cases "action_start h c1 n s")
  case (Inl e)
  with action_start_core [of h c1 n s c2 t] have "action_start h c2 n t = Inl e"
    by (cases "action_start h c2 n t") simp_all
  with Inl assms show ?thesis by (simp add: executeAction_def)
next
  case (Inr x)
  obtain e as len where x: "x = (e, as, len)" by (cases x)
  with Inr action_start_core [of h c1 n s c2 t]
  obtain e' where e': "action_start h c2 n t = Inr (e', as, len)" "entry_core e = entry_core e'"
    by (cases "action_start h c2 n t") auto
  note sc = same_core_addLog [OF assms e'(2)]
  obtain r1 s1 where l: "executeActions h c1 as 0 (addLog s e) = (r1, s1)"
    by (cases "executeActions h c1 as 0 (addLog s e)")
  obtain r2 t1 where r: "executeActions h c2 as 0 (addLog t e') = (r2, t1)"
    by (cases "executeActions h c2 as 0 (addLog t e')")
  from executeActions_core [OF sc, of h c1 as 0 c2] l r
  have eq: "r1 = r2" and sc1: "same_core s1 t1" by simp_all
  show ?thesis
  proof (cases r1)
    case (Inl err)
    with eq sc1 l r Inr x e'(1) show ?thesis by (auto simp add: executeAction_def)
  next
    case (Inr u)
    with eq sc1 l r \<open>action_start h c1 n s = Inr x\<close> x e'(1) show ?thesis
      by (auto simp add: executeAction_def same_core_def addLog_def)
  qed
qed

lemma node_step_core:
  assumes "same_core s t"
  shows "fst (node_step h c1 n ctx s) = fst (node_step h c2 n ctx t) \<and>
         same_core (snd (node_step h c1 n ctx s)) (snd (node_step h c2 n ctx t))"
  using executeTrigger_core [OF assms] executeCondition_core [OF assms]
    executeAction_core [OF assms]
  by (cases "nd_type n") (simp_all add: node_step_def)

lemma executeNode_core:
  assumes "same_core s t"
  shows "same_core (executeNode h c1 n ctx s) (executeNode h c2 n ctx t)"
proof -
  have sc: "same_core (addLog s (start_entry c1 s n)) (addLog t (start_entry c2 t n))"
    by (rule same_core_addLog [OF assms]) (simp add: start_entry_def)
  obtain r1 s1 where l: "node_step h c1 n ctx (addLog s (start_entry c1 s n)) = (r1, s1)"
    by (cases "node_step h c1 n ctx (addLog s (start_entry c1 s n))")
  obtain r2 t1 where r: "node_step h c2 n ctx (addLog t (start_entry c2 t n)) = (r2, t1)"
    by (cases "node_step h c2 n ctx (addLog t (start_entry c2 t n))")
  from node_step_core [OF sc, of h c1 n ctx c2] l r
  have eq: "r1 = r2" and sc1: "same_core s1 t1" by simp_all
  show ?thesis
  proof (cases r1)
    case (Inl e)
    have "same_core (addLog s1 (error_entry h c1 s1 n e)) (addLog t1 (error_entry h c2 t1 n e))"
      by (rule same_core_addLog [OF sc1]) (simp add: error_entry_def)
    with Inl eq l r show ?thesis by (auto simp add: executeNode_def)
  next
    case (Inr u)
    with eq l r sc1 show ?thesis by (auto simp add: executeNode_def same_core_def)
  qed
qed

lemma nodePassedCondition_core:
  "nodeConditions s = nodeConditions t \<Longrightarrow>
   nodePassedCondition nodes s x = nodePassedCondition nodes t x"
  by (simp add: nodePassedCondition_def split: option.splits)

lemma gates_clear_core:
  "same_core s t \<Longrightarrow> gates_clear nodes conns s n = gates_clear nodes conns t n"
  using nodePassedCondition_core [of s t nodes]
  by (simp add: gates_clear_def same_core_def)

lemma propagate_while_stop:
  "\<not> (ch \<and> i < maxIterations) \<Longrightarrow> propagate_while h clk nodes conns ctx ch i s = (i, s)"
  by (subst propagate_while.simps) auto

lemma propagate_while_step:
  "ch \<Longrightarrow> i < maxIterations \<Longrightarrow>
   propagate_pass h clk nodes conns ctx nodes (s, False) = (s', ch') \<Longrightarrow>
   propagate_while h clk nodes conns ctx ch i s
     = propagate_while h clk nodes conns ctx ch' (Suc i) s'"
  by (subst propagate_while.simps) simp

lemma propagate_pass_core:
  assumes "same_core s t"
  shows "snd (propagate_pass h c1 nodes conns ctx rest (s, ch))
           = snd (propagate_pass h c2 nodes conns ctx rest (t, ch)) \<and>
         same_core (fst (propagate_pass h c1 nodes conns ctx rest (s, ch)))
           (fst (propagate_pass h c2 nodes conns ctx rest (t, ch)))"
  using assms
proof (induction rest arbitrary: s t ch)
  case Nil
  then show ?case by simp
next
  case (Cons n rest)
  show ?case
  proof (cases "gates_clear nodes conns s n")
    case True
    with gates_clear_core [OF Cons.prems] have "gates_clear nodes conns t n" by simp
    with True Cons.IH [OF executeNode_core [OF Cons.prems, of h c1 n ctx c2], where ch = True]
    show ?thesis by simp
  next
    case False
    with gates_clear_core [OF Cons.prems] have "\<not> gates_clear nodes conns t n" by simp
    with False Cons.IH [OF Cons.prems, where ch = ch] show ?thesis by simp
  qed
qed

lemma propagate_while_core:
  assumes "same_core s t"
  shows "fst (propagate_while h c1 nodes conns ctx ch i s)
           = fst (propagate_while h c2 nodes conns ctx ch i t) \<and>
         same_core (snd (propagate_while h c1 nodes conns ctx ch i s))
           (snd (propagate_while h c2 nodes conns ctx ch i t))"
  using assms
proof (induction "maxIterations - i" arbitrary: i s t ch)
  case 0
  then show ?case by (simp add: propagate_while_stop)
next
  case (Suc k)
  show ?case
  proof (cases "ch \<and> i < maxIterations")
    case False
    with Suc.prems show ?thesis by (simp add: propagate_while_stop)
  next
    case True
    obtain s1 ch1 where l: "propagate_pass h c1 nodes conns ctx nodes (s, False) = (s1, ch1)"
      by (cases "propagate_pass h c1 nodes conns ctx nodes (s, False)")
    obtain t1 ch2 where r: "propagate_pass h c2 nodes conns ctx nodes (t, False) = (t1, ch2)"
      by (cases "propagate_pass h c2 nodes conns ctx nodes (t, False)")
    from propagate_pass_core [OF Suc.prems, of h c1 nodes conns ctx nodes False c2] l r
    have eq: "ch1 = ch2" and sc: "same_core s1 t1" by simp_all
    from Suc.hyps(2) True have k: "k = maxIterations - Suc i" by simp
    from True l have ul: "propagate_while h c1 nodes conns ctx ch i s
        = propagate_while h c1 nodes conns ctx ch1 (Suc i) s1"
      by (simp add: propagate_while_step)
    from True r eq have ur: "propagate_while h c2 nodes conns ctx ch i t
        = propagate_while h c2 nodes conns ctx ch1 (Suc i) t1"
      by (simp add: propagate_while_step)
    from Suc.hyps(1) [OF k sc, where ch = ch1] show ?thesis
      unfolding ul ur .
  qed
qed

lemma propagateExecution_core:
  assumes "same_core s t"
  shows "same_core (propagateExecution h c1 nodes conns ctx s)
           (propagateExecution h c2 nodes conns ctx t)"
proof -
  obtain i1 s1 where l: "propagate_while h c1 nodes conns ctx True 0 s = (i1, s1)"
    by (cases "propagate_while h c1 nodes conns ctx True 0 s")
  obtain i2 t1 where r: "propagate_while h c2 nodes conns ctx True 0 t = (i2, t1)"
    by (cases "propagate_while h c2 nodes conns ctx True 0 t")
  from propagate_while_core [OF assms, of h c1 nodes conns ctx True 0 c2] l r
  have eq: "i1 = i2" and sc: "same_core s1 t1" by simp_all
  from same_core_addLog [OF sc] sc eq l r show ?thesis
    by (simp add: propagateExecution_def)
qed

lemma fire_triggers_core:
  assumes "same_core s t"
  shows "(\<exists>e. fire_triggers h c1 ctx ev ts s = Inl e \<and> fire_triggers h c2 ctx ev ts t = Inl e) \<or>
         (\<exists>s' t'. fire_triggers h c1 ctx ev ts s = Inr s' \<and>
            fire_triggers h c2 ctx ev ts t = Inr t' \<and> same_core s' t')"
  using assms
proof (induction ts arbitrary: s t)
  case Nil
  then show ?case by simp
next
  case (Cons n ts)
  show ?case
  proof (cases "shouldExecuteTrigger h n ev")
    case (Inl e)
    then show ?thesis by simp
  next
    case (Inr fire)
    show ?thesis
    proof (cases fire)
      case True
      with Inr Cons.IH [OF executeNode_core [OF Cons.prems, of h c1 n ctx c2]] show ?thesis
        by simp
    next
      case False
      with Inr Cons.IH [OF Cons.prems] show ?thesis by simp
    qed
  qed
qed

text \<open>
  C9. The run is a deterministic function of the graph and the event: two runs of the
  same node list, connection list and event, under any two clocks, either raise the same
  error or return results with the same success flag, the same executed nodes and the
  same trace up to the generated ids and the timestamps of its entries; the condition
  outcomes are part of the CONDITION entries.
\<close>

theorem execute_deterministic:
  "map_sum id result_core (execute h clk1 nodes connections event)
     = map_sum id result_core (execute h clk2 nodes connections event)"
proof (cases "findTriggerNodes (filter nd_enabled nodes) = []")
  case True
  then show ?thesis
    by (simp add: execute_def Let_def result_core_def addLog_def)
next
  case False
  have sc0: "same_core new_executor new_executor" by (simp add: same_core_def)
  from fire_triggers_core [OF sc0, of h clk1 "make_context event" event
      "findTriggerNodes (filter nd_enabled nodes)" clk2]
  show ?thesis
  proof
    assume "\<exists>e. fire_triggers h clk1 (make_context event) event
        (findTriggerNodes (filter nd_enabled nodes)) new_executor = Inl e \<and>
      fire_triggers h clk2 (make_context event) event
        (findTriggerNodes (filter nd_enabled nodes)) new_executor = Inl e"
    with False show ?thesis by (auto simp add: execute_def Let_def)
  next
    assume "\<exists>s' t'. fire_triggers h clk1 (make_context event) event
        (findTriggerNodes (filter nd_enabled nodes)) new_executor = Inr s' \<and>
      fire_triggers h clk2 (make_context event) event
        (findTriggerNodes (filter nd_enabled nodes)) new_executor = Inr t' \<and> same_core s' t'"
    then obtain s' t' where f: "fire_triggers h clk1 (make_context event) event
        (findTriggerNodes (filter nd_enabled nodes)) new_executor = Inr s'"
      "fire_triggers h clk2 (make_context event) event
        (findTriggerNodes (filter nd_enabled nodes)) new_executor = Inr t'"
      and sc: "same_core s' t'" by blast
    from propagateExecution_core [OF sc, of h clk1 "filter nd_enabled nodes" connections
        "make_context event" clk2] False f
    show ?thesis by (simp add: execute_def Let_def result_core_def same_core_def)
  qed
qed

theorem execute_deterministic_witness:
  "map_sum id result_core
     (execute sample_host sample_clock [trigger_e1, one_action] [mk_conn ''t'' ''a''] sample_event)
     = map_sum id result_core
         (execute sample_host late_clock [trigger_e1, one_action] [mk_conn ''t'' ''a''] sample_event) \<and>
   map_sum id (\<lambda>r. map le_id (r_logs r))
     (execute sample_host sample_clock [one_action] [] sample_event)
     = Inr [''exec-1000-no-trigger''] \<and>
   map_sum id (\<lambda>r. map le_id (r_logs r))
     (execute sample_host late_clock [one_action] [] sample_event)
     = Inr [''exec-5000-no-trigger'']"
proof -
  have "map_sum id (\<lambda>r. map le_id (r_logs r))
     (execute sample_host sample_clock [one_action] [] sample_event)
     = Inr [''exec-1000-no-trigger'']"
    by code_simp
  moreover have "map_sum id (\<lambda>r. map le_id (r_logs r))
     (execute sample_host late_clock [one_action] [] sample_event)
     = Inr [''exec-5000-no-trigger'']"
    by code_simp
  ultimately show ?thesis
    using execute_deterministic [of sample_host sample_clock "[trigger_e1, one_action]"
      "[mk_conn ''t'' ''a'']" sample_event late_clock]
    by blast
qed

section \<open>Disabled nodes\<close>





lemma executeNode_executed:
  "set (executedNodes (executeNode h clk n ctx s)) \<subseteq> insert (nd_id n) (set (executedNodes s)) \<and>
   set (executedNodes s) \<subseteq> set (executedNodes (executeNode h clk n ctx s))"
proof -
  obtain r s2 where st: "node_step h clk n ctx (addLog s (start_entry clk s n)) = (r, s2)"
    by (cases "node_step h clk n ctx (addLog s (start_entry clk s n))")
  from node_step_frame [OF st] have "executedNodes s2 = executedNodes s" by simp
  with st show ?thesis
    by (cases r) (auto simp add: executeNode_def set_add_def)
qed

lemma propagate_pass_invariant:
  assumes "I s"
    and "\<And>n s. n \<in> set rest \<Longrightarrow> I s \<Longrightarrow> gates_clear nodes conns s n \<Longrightarrow> I (executeNode h clk n ctx s)"
  shows "I (fst (propagate_pass h clk nodes conns ctx rest (s, ch)))"
  using assms
proof (induction rest arbitrary: s ch)
  case Nil
  then show ?case by simp
next
  case (Cons n rest)
  show ?case
  proof (cases "gates_clear nodes conns s n")
    case True
    have "I (executeNode h clk n ctx s)"
      by (rule Cons.prems(2) [OF _ Cons.prems(1) True]) simp
    from Cons.IH [OF this, of True] Cons.prems(2) True show ?thesis by simp
  next
    case False
    from Cons.IH [OF Cons.prems(1), of ch] Cons.prems(2) False show ?thesis by simp
  qed
qed








section \<open>A node that keeps failing\<close>

lemma gates_clear_stuck:
  "gates_clear nodes connections s n \<Longrightarrow> stuck nodes connections (nd_id n) s"
  by (simp add: gates_clear_def stuck_def Let_def)

lemma stuck_gates_clear:
  "stuck nodes connections (nd_id n) s \<Longrightarrow> gates_clear nodes connections s0 n \<Longrightarrow>
   gates_clear nodes connections s n"
  by (auto simp add: gates_clear_def stuck_def Let_def)

lemma executeNode_conditions:
  "k \<noteq> nd_id n \<Longrightarrow> nodeConditions (executeNode h clk n ctx s) k = nodeConditions s k"
proof -
  assume k: "k \<noteq> nd_id n"
  obtain r s2 where st: "node_step h clk n ctx (addLog s (start_entry clk s n)) = (r, s2)"
    by (cases "node_step h clk n ctx (addLog s (start_entry clk s n))")
  from node_step_frame [OF st] k have "nodeConditions s2 k = nodeConditions s k"
    by (cases r) auto
  with st show ?thesis by (cases r) (simp_all add: executeNode_def)
qed

lemma executeNode_throws:
  assumes "step_throws h clk ctx n"
  shows "executedNodes (executeNode h clk n ctx s) = executedNodes s"
proof -
  from assms obtain e where "fst (node_step h clk n ctx (addLog s (start_entry clk s n))) = Inl e"
    unfolding step_throws_def by blast
  then obtain s2 where st: "node_step h clk n ctx (addLog s (start_entry clk s n)) = (Inl e, s2)"
    by (cases "node_step h clk n ctx (addLog s (start_entry clk s n))") simp
  from node_step_frame [OF st] st show ?thesis by (simp add: executeNode_def)
qed

lemma stuck_executeNode:
  assumes st: "stuck nodes connections x s"
    and g: "gates_clear nodes connections s m"
    and thr: "nd_id m = x \<longrightarrow> step_throws h clk ctx m"
  shows "stuck nodes connections x (executeNode h clk m ctx s)"
proof -
  let ?s' = "executeNode h clk m ctx s"
  let ?ps = "filter (\<lambda>c. targetId c = x) connections"
  note ex = executeNode_executed [of h clk m ctx s]
  have a: "x \<notin> set (executedNodes ?s')"
  proof (cases "nd_id m = x")
    case True
    with thr executeNode_throws [of h clk ctx m s] st show ?thesis by (simp add: stuck_def)
  next
    case False
    with ex st show ?thesis by (auto simp add: stuck_def)
  qed
  from st ex have b: "list_all (\<lambda>c. sourceId c \<in> set (executedNodes ?s')) ?ps"
    by (auto simp add: stuck_def list_all_iff)
  from g have fresh: "nd_id m \<notin> set (executedNodes s)" by (simp add: gates_clear_def Let_def)
  from st obtain c where c: "c \<in> set ?ps" "nodePassedCondition nodes s (sourceId c)"
    by (auto simp add: stuck_def list_ex_iff)
  from st c(1) have "sourceId c \<in> set (executedNodes s)"
    by (auto simp add: stuck_def list_all_iff)
  with fresh have "sourceId c \<noteq> nd_id m" by auto
  then have "nodeConditions ?s' (sourceId c) = nodeConditions s (sourceId c)"
    by (rule executeNode_conditions)
  with c(2) have "nodePassedCondition nodes ?s' (sourceId c)"
    by (simp add: nodePassedCondition_def split: option.splits)
  with c(1) have "list_ex (\<lambda>c. nodePassedCondition nodes ?s' (sourceId c)) ?ps"
    by (auto simp add: list_ex_iff)
  with a b show ?thesis by (simp add: stuck_def)
qed

lemma stuck_pass:
  assumes "stuck nodes connections x s"
    and "\<forall>m\<in>set rest. nd_id m = x \<longrightarrow> step_throws h clk ctx m"
  shows "stuck nodes connections x (fst (propagate_pass h clk nodes connections ctx rest (s, ch)))"
  by (rule propagate_pass_invariant [of "stuck nodes connections x", OF assms(1)])
    (rule stuck_executeNode, use assms(2) in auto)

lemma pass_keeps_changed:
  "snd (propagate_pass h clk nodes connections ctx rest (s, True)) = True"
  by (induction rest arbitrary: s) auto

lemma pass_attempts:
  assumes "n \<in> set rest" and "gates_clear nodes connections s0 n"
    and "stuck nodes connections (nd_id n) s"
    and "\<forall>m\<in>set rest. nd_id m = nd_id n \<longrightarrow> step_throws h clk ctx m"
  shows "snd (propagate_pass h clk nodes connections ctx rest (s, ch)) = True"
  using assms
proof (induction rest arbitrary: s ch)
  case Nil
  then show ?case by simp
next
  case (Cons m rest)
  show ?case
  proof (cases "gates_clear nodes connections s m")
    case True
    then show ?thesis by (simp add: pass_keeps_changed)
  next
    case False
    with stuck_gates_clear [OF Cons.prems(3,2)] have "m \<noteq> n" by auto
    with Cons.prems(1) have "n \<in> set rest" by simp
    from Cons.IH [OF this Cons.prems(2,3)] Cons.prems(4) False show ?thesis by simp
  qed
qed

lemma loop_head_bound:
  "loop_head h clk nodes connections ctx s0 k = Some s \<Longrightarrow> k \<le> maxIterations"
  by (cases k) (auto split: option.splits if_splits)

lemma loop_head_while:
  "loop_head h clk nodes connections ctx s0 k = Some s \<Longrightarrow>
   propagate_while h clk nodes connections ctx True 0 s0
     = propagate_while h clk nodes connections ctx True k s"
proof (induction k arbitrary: s)
  case 0
  then show ?case by simp
next
  case (Suc k)
  from Suc.prems obtain t where t: "loop_head h clk nodes connections ctx s0 k = Some t"
    and k: "k < maxIterations"
    and p: "propagate_pass h clk nodes connections ctx nodes (t, False) = (s, True)"
    by (auto split: option.splits if_splits prod.splits)
  from Suc.IH [OF t] propagate_while_step [OF _ k p] show ?case by simp
qed

lemma stuck_runs_to_cap:
  assumes "n \<in> set nodes" and "gates_clear nodes connections s0 n"
    and "\<forall>m\<in>set nodes. nd_id m = nd_id n \<longrightarrow> step_throws h clk ctx m"
    and "stuck nodes connections (nd_id n) s" and "k \<le> maxIterations"
  shows "fst (propagate_while h clk nodes connections ctx True k s) = maxIterations \<and>
         stuck nodes connections (nd_id n)
           (snd (propagate_while h clk nodes connections ctx True k s))"
  using assms(4,5)
proof (induction "maxIterations - k" arbitrary: k s)
  case 0
  then show ?case by (simp add: propagate_while_stop)
next
  case (Suc j)
  from Suc.hyps(2) have lt: "k < maxIterations" by simp
  obtain s1 ch1 where p: "propagate_pass h clk nodes connections ctx nodes (s, False) = (s1, ch1)"
    by (cases "propagate_pass h clk nodes connections ctx nodes (s, False)")
  from pass_attempts [OF assms(1,2) Suc.prems(1) assms(3), of False] p
  have ch: "ch1 = True" by simp
  from stuck_pass [OF Suc.prems(1) assms(3), of False] p
  have st: "stuck nodes connections (nd_id n) s1" by simp
  from Suc.hyps(2) have j: "j = maxIterations - Suc k" by simp
  from lt have le: "Suc k \<le> maxIterations" by simp
  from propagate_while_step [OF _ lt p] ch
  have u: "propagate_while h clk nodes connections ctx True k s
      = propagate_while h clk nodes connections ctx True (Suc k) s1" by simp
  from Suc.hyps(1) [OF j st le] show ?case unfolding u .
qed

lemma propagate_pass_append:
  "propagate_pass h clk nodes connections ctx (pre @ rest) st
     = propagate_pass h clk nodes connections ctx rest
         (propagate_pass h clk nodes connections ctx pre st)"
proof (induction pre arbitrary: st)
  case Nil
  then show ?case by (cases st) simp
next
  case (Cons n pre)
  obtain s ch where "st = (s, ch)" by (cases st)
  with Cons.IH show ?case by simp
qed

lemma loop_head_stuck:
  assumes "n \<in> set nodes" and "gates_clear nodes connections s0' n"
    and "\<forall>m\<in>set nodes. nd_id m = nd_id n \<longrightarrow> step_throws h clk ctx m"
    and "loop_head h clk nodes connections ctx s0 k = Some s"
    and "stuck nodes connections (nd_id n) s"
    and "k \<le> j" and "j \<le> maxIterations"
  shows "\<exists>sj. loop_head h clk nodes connections ctx s0 j = Some sj \<and>
              stuck nodes connections (nd_id n) sj"
  using assms(6,7)
proof (induction j)
  case 0
  with assms(4,5) show ?case by simp
next
  case (Suc j)
  show ?case
  proof (cases "k = Suc j")
    case True
    with assms(4,5) show ?thesis by simp
  next
    case False
    with Suc.prems have "k \<le> j" "j \<le> maxIterations" "j < maxIterations" by simp_all
    with Suc.IH obtain sj where sj: "loop_head h clk nodes connections ctx s0 j = Some sj"
      "stuck nodes connections (nd_id n) sj" by blast
    obtain s1 ch1 where p: "propagate_pass h clk nodes connections ctx nodes (sj, False) = (s1, ch1)"
      by (cases "propagate_pass h clk nodes connections ctx nodes (sj, False)")
    from pass_attempts [OF assms(1,2) sj(2) assms(3), of False] p have "ch1 = True" by simp
    moreover from stuck_pass [OF sj(2) assms(3), of False] p
    have "stuck nodes connections (nd_id n) s1" by simp
    ultimately show ?thesis using sj(1) p \<open>j < maxIterations\<close> by simp
  qed
qed

lemma attempt_leads_to_head:
  assumes split: "nodes = pre @ n # post"
    and g: "gates_clear nodes connections
        (fst (propagate_pass h clk nodes connections ctx pre (s, False))) n"
    and thr: "\<forall>m\<in>set nodes. nd_id m = nd_id n \<longrightarrow> step_throws h clk ctx m"
    and head: "loop_head h clk nodes connections ctx s0 k = Some s" and k: "k < maxIterations"
  shows "\<exists>s1. loop_head h clk nodes connections ctx s0 (Suc k) = Some s1 \<and>
              stuck nodes connections (nd_id n) s1"
proof -
  obtain sv chv where pre: "propagate_pass h clk nodes connections ctx pre (s, False) = (sv, chv)"
    by (cases "propagate_pass h clk nodes connections ctx pre (s, False)")
  with g have gv: "gates_clear nodes connections sv n" by simp
  from thr split have tn: "nd_id n = nd_id n \<longrightarrow> step_throws h clk ctx n"
    and tpost: "\<forall>m\<in>set post. nd_id m = nd_id n \<longrightarrow> step_throws h clk ctx m"
    by auto
  have sn: "stuck nodes connections (nd_id n) (executeNode h clk n ctx sv)"
    by (rule stuck_executeNode [OF gates_clear_stuck [OF gv] gv tn])
  have "propagate_pass h clk nodes connections ctx (pre @ n # post) (s, False)
      = propagate_pass h clk nodes connections ctx post (executeNode h clk n ctx sv, True)"
    by (simp add: propagate_pass_append pre gv)
  then have whole: "propagate_pass h clk nodes connections ctx nodes (s, False)
      = propagate_pass h clk nodes connections ctx post (executeNode h clk n ctx sv, True)"
    unfolding split [symmetric] .
  obtain s1 ch1 where p: "propagate_pass h clk nodes connections ctx nodes (s, False) = (s1, ch1)"
    by (cases "propagate_pass h clk nodes connections ctx nodes (s, False)")
  from p whole pass_keeps_changed [of h clk nodes connections ctx post "executeNode h clk n ctx sv"]
  have ch: "ch1 = True" by simp
  from p whole stuck_pass [OF sn tpost, of True] have "stuck nodes connections (nd_id n) s1"
    by simp
  with head k p ch show ?thesis by simp
qed

lemma executeSingleAction_logs:
  assumes "executeSingleAction h clk a i s = (r, s')"
  shows "\<exists>ext. logs s' = logs s @ ext"
  using assms by (auto simp add: executeSingleAction_def split: sum.splits)

lemma executeActions_logs:
  assumes "executeActions h clk as i s = (r, s')"
  shows "\<exists>ext. logs s' = logs s @ ext"
  using assms
proof (induction as arbitrary: i s)
  case Nil
  then show ?case by simp
next
  case (Cons a as)
  obtain r1 s1 where one: "executeSingleAction h clk a i s = (r1, s1)"
    by (cases "executeSingleAction h clk a i s")
  from executeSingleAction_logs [OF one] obtain e1 where e1: "logs s1 = logs s @ e1" ..
  show ?case
  proof (cases r1)
    case (Inl e)
    with Cons.prems one e1 show ?thesis by simp
  next
    case (Inr u)
    with Cons.prems one have "executeActions h clk as (Suc i) s1 = (r, s')" by simp
    from Cons.IH [OF this] e1 show ?thesis by auto
  qed
qed

lemma node_step_logs:
  assumes "node_step h clk n ctx s = (r, s')"
  shows "\<exists>ext. logs s' = logs s @ ext"
proof (cases "nd_type n")
  case TRIGGER
  with assms show ?thesis
    by (auto simp add: node_step_def executeTrigger_def split: sum.splits)
next
  case CONDITION
  with assms show ?thesis
    by (auto simp add: node_step_def executeCondition_def split: sum.splits prod.splits)
next
  case ACTION
  show ?thesis
  proof (cases "action_start h clk n s")
    case (Inl e)
    with assms ACTION show ?thesis by (auto simp add: node_step_def executeAction_def)
  next
    case (Inr t)
    obtain entry actions len where t: "t = (entry, actions, len)" by (cases t)
    obtain r1 s1 where run: "executeActions h clk actions 0 (addLog s entry) = (r1, s1)"
      by (cases "executeActions h clk actions 0 (addLog s entry)")
    from executeActions_logs [OF run] obtain e1 where "logs s1 = logs s @ entry # e1"
      by auto
    with assms ACTION Inr t run show ?thesis
      by (cases r1) (auto simp add: node_step_def executeAction_def)
  qed
qed

lemma executeNode_logs:
  "\<exists>ext. logs (executeNode h clk n ctx s) = logs s @ start_entry clk s n # ext"
proof -
  obtain r s2 where st: "node_step h clk n ctx (addLog s (start_entry clk s n)) = (r, s2)"
    by (cases "node_step h clk n ctx (addLog s (start_entry clk s n))")
  from node_step_logs [OF st] obtain e1 where "logs s2 = logs s @ start_entry clk s n # e1"
    by auto
  with st show ?thesis by (cases r) (simp_all add: executeNode_def)
qed

lemma executeNode_logs_throws:
  assumes "step_throws h clk ctx n"
  shows "\<exists>ext s2 e. logs (executeNode h clk n ctx s)
           = logs s @ start_entry clk s n # ext @ [error_entry h clk s2 n e]"
proof -
  from assms obtain e where "fst (node_step h clk n ctx (addLog s (start_entry clk s n))) = Inl e"
    unfolding step_throws_def by blast
  then obtain s2 where st: "node_step h clk n ctx (addLog s (start_entry clk s n)) = (Inl e, s2)"
    by (cases "node_step h clk n ctx (addLog s (start_entry clk s n))") simp
  from node_step_logs [OF st] obtain e1 where "logs s2 = logs s @ start_entry clk s n # e1"
    by auto
  with st show ?thesis by (simp add: executeNode_def, blast)
qed

lemma is_start_of_entry: "is_start_of n (start_entry clk s n)"
  by (simp add: is_start_of_def start_entry_def own_prop_def obj_lookup_def)

lemma is_failure_of_entry: "is_failure_of n (error_entry h clk s n e)"
  by (simp add: is_failure_of_def error_entry_def own_prop_def obj_lookup_def)

lemma starts_of_executeNode:
  "starts_of n (logs s) \<le> starts_of n (logs (executeNode h clk m ctx s))"
  "starts_of n (logs s) + 1 \<le> starts_of n (logs (executeNode h clk n ctx s))"
proof -
  from executeNode_logs [of h clk m ctx s] show
    "starts_of n (logs s) \<le> starts_of n (logs (executeNode h clk m ctx s))"
    by (auto simp add: starts_of_def)
  from executeNode_logs [of h clk n ctx s] is_start_of_entry [of n clk s]
  show "starts_of n (logs s) + 1 \<le> starts_of n (logs (executeNode h clk n ctx s))"
    by (auto simp add: starts_of_def)
qed

lemma failures_of_executeNode:
  "failures_of n (logs s) \<le> failures_of n (logs (executeNode h clk m ctx s))"
  "step_throws h clk ctx n \<Longrightarrow>
   failures_of n (logs s) + 1 \<le> failures_of n (logs (executeNode h clk n ctx s))"
proof -
  from executeNode_logs [of h clk m ctx s] show
    "failures_of n (logs s) \<le> failures_of n (logs (executeNode h clk m ctx s))"
    by (auto simp add: failures_of_def)
  assume "step_throws h clk ctx n"
  from executeNode_logs_throws [OF this, of s] is_failure_of_entry [of n h clk _ _]
  show "failures_of n (logs s) + 1 \<le> failures_of n (logs (executeNode h clk n ctx s))"
    by (auto simp add: failures_of_def)
qed

text \<open>
  The passes of the loop, for a count \<open>c\<close> of trace entries that no attempt lowers and
  that an attempt of the node raises.
\<close>

lemma pass_count_mono:
  assumes "\<And>m t. c (logs (t :: executor)) \<le> c (logs (executeNode h clk m ctx t))"
  shows "(c (logs s) :: nat) \<le> c (logs (fst (propagate_pass h clk nodes conns ctx rest (s, ch))))"
proof (rule propagate_pass_invariant [of "\<lambda>t. c (logs s) \<le> c (logs t)"])
  show "c (logs s) \<le> c (logs s)" by simp
next
  fix m and t :: executor
  assume "c (logs s) \<le> c (logs t)"
  with assms [where t = t and m = m] show "c (logs s) \<le> c (logs (executeNode h clk m ctx t))" by simp
qed

lemma pass_count_attempt:
  assumes split: "nodes = pre @ n # post"
    and g: "gates_clear nodes conns (fst (propagate_pass h clk nodes conns ctx pre (s, False))) n"
    and mono: "\<And>m t. c (logs (t :: executor)) \<le> c (logs (executeNode h clk m ctx t))"
    and inc: "\<And>t. c (logs (t :: executor)) + 1 \<le> c (logs (executeNode h clk n ctx t))"
  shows "(c (logs s) :: nat) + 1
           \<le> c (logs (fst (propagate_pass h clk nodes conns ctx nodes (s, False))))"
proof -
  obtain sv chv where pre: "propagate_pass h clk nodes conns ctx pre (s, False) = (sv, chv)"
    by (cases "propagate_pass h clk nodes conns ctx pre (s, False)")
  with g have gv: "gates_clear nodes conns sv n" by simp
  have "propagate_pass h clk nodes conns ctx (pre @ n # post) (s, False)
      = propagate_pass h clk nodes conns ctx post (executeNode h clk n ctx sv, True)"
    by (simp add: propagate_pass_append pre gv)
  then have whole: "propagate_pass h clk nodes conns ctx nodes (s, False)
      = propagate_pass h clk nodes conns ctx post (executeNode h clk n ctx sv, True)"
    unfolding split [symmetric] .
  from pass_count_mono [of c h clk ctx s nodes conns pre False, OF mono] pre
  have 1: "c (logs s) \<le> c (logs sv)" by simp
  from inc [of sv] have 2: "c (logs sv) + 1 \<le> c (logs (executeNode h clk n ctx sv))" .
  from pass_count_mono [of c h clk ctx "executeNode h clk n ctx sv" nodes conns post True, OF mono]
  have 3: "c (logs (executeNode h clk n ctx sv))
      \<le> c (logs (fst (propagate_pass h clk nodes conns ctx post (executeNode h clk n ctx sv, True))))" .
  from 1 2 3 show ?thesis unfolding whole by simp
qed

lemma stuck_counts:
  assumes split: "nodes = pre @ n # post"
    and g: "gates_clear nodes connections s0 n"
    and thr: "\<forall>m\<in>set nodes. nd_id m = nd_id n \<longrightarrow> step_throws h clk ctx m"
    and mono: "\<And>m t. c (logs (t :: executor)) \<le> c (logs (executeNode h clk m ctx t))"
    and inc: "\<And>t. c (logs (t :: executor)) + 1 \<le> c (logs (executeNode h clk n ctx t))"
    and "stuck nodes connections (nd_id n) s" and "k \<le> maxIterations"
  shows "(c (logs s) :: nat) + (maxIterations - k)
           \<le> c (logs (snd (propagate_while h clk nodes connections ctx True k s)))"
  using assms(6,7)
proof (induction "maxIterations - k" arbitrary: k s)
  case 0
  then show ?case by (simp add: propagate_while_stop)
next
  case (Suc j)
  from split have n: "n \<in> set nodes" by simp
  from Suc.hyps(2) have lt: "k < maxIterations" by simp
  obtain s1 ch1 where p: "propagate_pass h clk nodes connections ctx nodes (s, False) = (s1, ch1)"
    by (cases "propagate_pass h clk nodes connections ctx nodes (s, False)")
  from pass_attempts [OF n g Suc.prems(1) thr, of False] p
  have ch: "ch1 = True" by simp
  from stuck_pass [OF Suc.prems(1) thr, of False] p
  have st: "stuck nodes connections (nd_id n) s1" by simp
  from thr split have "\<forall>m\<in>set pre. nd_id m = nd_id n \<longrightarrow> step_throws h clk ctx m"
    by simp
  from stuck_pass [OF Suc.prems(1) this, of False]
  have "stuck nodes connections (nd_id n)
      (fst (propagate_pass h clk nodes connections ctx pre (s, False)))" .
  from stuck_gates_clear [OF this g]
  have gv: "gates_clear nodes connections
      (fst (propagate_pass h clk nodes connections ctx pre (s, False))) n" .
  from pass_count_attempt [of nodes pre n post connections h clk ctx s c, OF split gv mono inc] p
  have one: "c (logs s) + 1 \<le> c (logs s1)" by simp
  from Suc.hyps(2) have j: "j = maxIterations - Suc k" by simp
  from lt have le: "Suc k \<le> maxIterations" by simp
  from propagate_while_step [OF _ lt p] ch
  have u: "propagate_while h clk nodes connections ctx True k s
      = propagate_while h clk nodes connections ctx True (Suc k) s1" by simp
  from Suc.hyps(1) [OF j st le] one lt show ?case unfolding u by simp
qed

text \<open>
  C10. Take a run in which, in some pass of the propagation loop, the gates of an enabled
  node are clear when the pass reaches it, while the execution step of the node (and of
  every enabled node carrying its id) throws on every attempt. Then the node is attempted
  again at its place in every later pass: the trace of the run holds a start entry and an
  ERROR entry of the node for that pass and for each pass after it, up to the hundredth.
  The loop runs all 100 iterations, the run returns with \<^verbatim>\<open>success = true\<close> and the
  timeout ERROR entry as the last trace entry, and the node is not among the executed
  nodes. No hypothesis makes the graph cyclic.
\<close>

theorem failing_node_runs_to_cap:
  assumes trig: "fire_triggers h clk (make_context event) event (enabled_triggers all_nodes)
        new_executor = Inr s0"
    and some: "enabled_triggers all_nodes \<noteq> []"
    and head: "loop_head h clk (filter nd_enabled all_nodes) connections (make_context event)
        s0 k = Some s"
    and k: "k < maxIterations"
    and split: "filter nd_enabled all_nodes = pre @ node # post"
    and g: "gates_clear (filter nd_enabled all_nodes) connections
        (fst (propagate_pass h clk (filter nd_enabled all_nodes) connections
                (make_context event) pre (s, False))) node"
    and thr: "\<forall>m\<in>set (filter nd_enabled all_nodes).
        nd_id m = nd_id node \<longrightarrow> step_throws h clk (make_context event) m"
  shows "(\<exists>t. execute h clk all_nodes connections event
            = Inr \<lparr>r_success = True, r_logs = logs t @ [timeout_entry clk t],
                   r_executedNodes = executedNodes t, r_failedNode = None, r_error = None\<rparr> \<and>
            nd_id node \<notin> set (executedNodes t) \<and>
            maxIterations - k \<le> starts_of node (logs t) \<and>
            maxIterations - k \<le> failures_of node (logs t)) \<and>
         fst (propagate_while h clk (filter nd_enabled all_nodes) connections
                (make_context event) True 0 s0) = maxIterations \<and>
         (\<forall>j pre' post'. k < j \<and> j < maxIterations \<and>
            filter nd_enabled all_nodes = pre' @ node # post' \<longrightarrow>
            (\<exists>sj. loop_head h clk (filter nd_enabled all_nodes) connections
                     (make_context event) s0 j = Some sj \<and>
                  gates_clear (filter nd_enabled all_nodes) connections
                    (fst (propagate_pass h clk (filter nd_enabled all_nodes) connections
                            (make_context event) pre' (sj, False))) node))"
proof -
  let ?nodes = "filter nd_enabled all_nodes"
  let ?ctx = "make_context event"
  from split have n: "node \<in> set ?nodes" by simp
  from thr n have tn: "step_throws h clk ?ctx node" by simp
  from attempt_leads_to_head [OF split g thr head k]
  obtain s1 where head1: "loop_head h clk ?nodes connections ?ctx s0 (Suc k) = Some s1"
    and st: "stuck ?nodes connections (nd_id node) s1" by blast
  from head1 head k have p1: "fst (propagate_pass h clk ?nodes connections ?ctx ?nodes (s, False)) = s1"
    by (auto split: prod.splits if_splits)
  note kb = loop_head_bound [OF head1]
  note cap = stuck_runs_to_cap [OF n g thr st kb]
  note eq = loop_head_while [OF head1]
  obtain i t where w: "propagate_while h clk ?nodes connections ?ctx True 0 s0 = (i, t)"
    by (cases "propagate_while h clk ?nodes connections ?ctx True 0 s0")
  have c0: "fst (propagate_while h clk ?nodes connections ?ctx True 0 s0) = maxIterations \<and>
      stuck ?nodes connections (nd_id node)
        (snd (propagate_while h clk ?nodes connections ?ctx True 0 s0))"
    unfolding eq by (rule cap)
  with w have i: "i = maxIterations" and stt: "stuck ?nodes connections (nd_id node) t"
    by simp_all
  from w eq have t: "snd (propagate_while h clk ?nodes connections ?ctx True (Suc k) s1) = t"
    by simp
  have counts: "maxIterations - k \<le> c (logs t)"
    if mono: "\<And>m u. c (logs (u :: executor)) \<le> c (logs (executeNode h clk m ?ctx u))"
      and inc: "\<And>u. c (logs (u :: executor)) + 1 \<le> c (logs (executeNode h clk node ?ctx u))"
    for c :: "LogEntry list \<Rightarrow> nat"
  proof -
    from pass_count_attempt [of ?nodes pre node post connections h clk ?ctx s c,
        OF split g mono inc] p1
    have "1 \<le> c (logs s1)" by simp
    moreover from stuck_counts [of ?nodes pre node post connections _ h clk ?ctx c s1 "Suc k",
        OF split g thr mono inc st kb] t
    have "c (logs s1) + (maxIterations - Suc k) \<le> c (logs t)" by simp
    ultimately show ?thesis using k by simp
  qed
  have cs: "maxIterations - k \<le> starts_of node (logs t)"
    by (rule counts) (rule starts_of_executeNode)+
  have cf: "maxIterations - k \<le> failures_of node (logs t)"
    by (rule counts) (rule failures_of_executeNode(1), rule failures_of_executeNode(2) [OF tn])
  from w i have pe: "propagateExecution h clk ?nodes connections ?ctx s0
      = addLog t (timeout_entry clk t)"
    by (simp add: propagateExecution_def timeout_entry_def)
  from trig some pe have run: "execute h clk all_nodes connections event
      = Inr \<lparr>r_success = True, r_logs = logs t @ [timeout_entry clk t],
             r_executedNodes = executedNodes t, r_failedNode = None, r_error = None\<rparr>"
    by (simp add: execute_def enabled_triggers_def Let_def)
  from stt have notin: "nd_id node \<notin> set (executedNodes t)" by (simp add: stuck_def)
  have each: "\<exists>sj. loop_head h clk ?nodes connections ?ctx s0 j = Some sj \<and>
      gates_clear ?nodes connections
        (fst (propagate_pass h clk ?nodes connections ?ctx pre' (sj, False))) node"
    if j: "k < j" "j < maxIterations" and split': "?nodes = pre' @ node # post'"
    for j pre' post'
  proof -
    from j have "Suc k \<le> j" "j \<le> maxIterations" by simp_all
    from loop_head_stuck [OF n g thr head1 st this]
    obtain sj where sj: "loop_head h clk ?nodes connections ?ctx s0 j = Some sj"
      "stuck ?nodes connections (nd_id node) sj" by blast
    from thr split' have "\<forall>m\<in>set pre'. nd_id m = nd_id node \<longrightarrow> step_throws h clk ?ctx m"
      by (metis Un_iff set_append)
    from stuck_pass [OF sj(2) this, of False]
    have "stuck ?nodes connections (nd_id node)
        (fst (propagate_pass h clk ?nodes connections ?ctx pre' (sj, False)))" .
    from stuck_gates_clear [OF this g] sj(1) show ?thesis by blast
  qed
  from run notin cs cf c0 each show ?thesis by blast
qed

theorem failing_node_runs_to_cap_witness:
  "enabled_triggers [trigger_e1, broken_filter, one_action] = [trigger_e1] \<and>
   shouldExecuteTrigger sample_host trigger_e1 sample_event = Inr True \<and>
   gates_clear [trigger_e1, broken_filter, one_action] [mk_conn ''t'' ''f'', mk_conn ''f'' ''a'']
     (executeNode sample_host sample_clock trigger_e1 (make_context sample_event) new_executor)
     broken_filter \<and>
   condition_passed sample_host broken_filter (make_context sample_event) = Inl TypeError \<and>
   map_sum id (\<lambda>r. (r_success r, le_level (last (r_logs r)), le_message (last (r_logs r)),
                    le_details (last (r_logs r)), ''f'' \<in> set (r_executedNodes r),
                    100 \<le> starts_of broken_filter (r_logs r),
                    100 \<le> failures_of broken_filter (r_logs r)))
     (execute sample_host sample_clock [trigger_e1, broken_filter, one_action]
        [mk_conn ''t'' ''f'', mk_conn ''f'' ''a''] sample_event)
     = Inr (True, ERROR, ''Workflow execution timeout - possible infinite loop'',
            JObj [(''iterations'', JNum (Fin 100))], False, True, True)"
proof -
  let ?nodes = "[trigger_e1, broken_filter, one_action]"
  let ?conns = "[mk_conn ''t'' ''f'', mk_conn ''f'' ''a'']"
  let ?ctx = "make_context sample_event"
  let ?s0 = "executeNode sample_host sample_clock trigger_e1 ?ctx new_executor"
  have en: "filter nd_enabled ?nodes = ?nodes" by code_simp
  have et: "enabled_triggers ?nodes = [trigger_e1]" by code_simp
  have m: "shouldExecuteTrigger sample_host trigger_e1 sample_event = Inr True" by code_simp
  have trig: "fire_triggers sample_host sample_clock ?ctx sample_event (enabled_triggers ?nodes)
      new_executor = Inr ?s0"
    by (simp add: et m)
  have some: "enabled_triggers ?nodes \<noteq> []" by (simp add: et)
  have head: "loop_head sample_host sample_clock (filter nd_enabled ?nodes) ?conns ?ctx ?s0 0
      = Some ?s0" by simp
  have k: "0 < maxIterations" by (simp add: maxIterations_def)
  have split: "filter nd_enabled ?nodes = [trigger_e1] @ broken_filter # [one_action]"
    unfolding en by simp
  have nt: "\<not> gates_clear ?nodes ?conns ?s0 trigger_e1" by code_simp
  have g0: "gates_clear ?nodes ?conns ?s0 broken_filter" by code_simp
  have g: "gates_clear (filter nd_enabled ?nodes) ?conns
      (fst (propagate_pass sample_host sample_clock (filter nd_enabled ?nodes) ?conns ?ctx
              [trigger_e1] (?s0, False))) broken_filter"
    unfolding en using nt g0 by simp
  have cp: "condition_passed sample_host broken_filter ?ctx = Inl TypeError" by code_simp
  have ty: "nd_type broken_filter = CONDITION" by code_simp
  have ids: "nd_id trigger_e1 \<noteq> nd_id broken_filter" "nd_id one_action \<noteq> nd_id broken_filter"
    "nd_id broken_filter = ''f''"
    by code_simp+
  have st: "step_throws sample_host sample_clock ?ctx broken_filter"
    by (simp add: step_throws_def node_step_def ty executeCondition_def cp)
  have thr: "\<forall>m\<in>set (filter nd_enabled ?nodes).
      nd_id m = nd_id broken_filter \<longrightarrow> step_throws sample_host sample_clock ?ctx m"
    unfolding en using ids st by simp
  from failing_node_runs_to_cap [OF trig some head k split g thr]
  obtain t where "execute sample_host sample_clock ?nodes ?conns sample_event
      = Inr \<lparr>r_success = True, r_logs = logs t @ [timeout_entry sample_clock t],
             r_executedNodes = executedNodes t, r_failedNode = None, r_error = None\<rparr>"
    and "nd_id broken_filter \<notin> set (executedNodes t)"
    and "maxIterations - 0 \<le> starts_of broken_filter (logs t)"
    and "maxIterations - 0 \<le> failures_of broken_filter (logs t)" by blast
  then have "map_sum id (\<lambda>r. (r_success r, le_level (last (r_logs r)), le_message (last (r_logs r)),
                    le_details (last (r_logs r)), ''f'' \<in> set (r_executedNodes r),
                    100 \<le> starts_of broken_filter (r_logs r),
                    100 \<le> failures_of broken_filter (r_logs r)))
     (execute sample_host sample_clock ?nodes ?conns sample_event)
     = Inr (True, ERROR, ''Workflow execution timeout - possible infinite loop'',
            JObj [(''iterations'', JNum (Fin 100))], False, True, True)"
    by (simp add: timeout_entry_def maxIterations_def ids(3) starts_of_def failures_of_def)
  with et m g0 cp show ?thesis by blast
qed

section \<open>Properties of the graph validator\<close>















end
